theory Spec2Isabelle
  imports Main "HOL-Library.AList"
begin

section \<open>Python values and string operations\<close>

text \<open>
  The converter of \<^verbatim>\<open>mt103_json.py\<close> takes a Python string and returns nested
  dictionaries, lists and strings. A string is modelled as a list of 8-bit characters, so
  the model covers the messages whose code points are below 256. A dictionary is an
  association list in insertion order: \<^const>\<open>AList.update\<close> replaces the value of a
  key that is present and appends a new key at the end, as assignment to a Python
  dictionary does. A capture group that took no part in a match is \<open>None\<close> in Python,
  hence \<open>JNull\<close>.
\<close>

datatype json = JNull | JStr string | JList "json list" | JObj "(string \<times> json) list"

type_synonym dict = "(string \<times> json) list"

datatype error = ValueError | IndexError | TypeError

definition bind :: "error + 'a \<Rightarrow> ('a \<Rightarrow> error + 'b) \<Rightarrow> error + 'b" where
  "bind m f = (case m of Inl e \<Rightarrow> Inl e | Inr x \<Rightarrow> f x)"

text \<open>\<^verbatim>\<open>d.update(other)\<close>: every item of \<open>other\<close> is assigned in order.\<close>

definition dict_update :: "dict \<Rightarrow> dict \<Rightarrow> dict" where
  "dict_update d other = fold (\<lambda>(k, v) acc. AList.update k v acc) other d"

text \<open>\<^verbatim>\<open>xs[i]\<close> for a non-negative index.\<close>

definition py_index :: "'a list \<Rightarrow> nat \<Rightarrow> error + 'a" where
  "py_index xs i = (if i < length xs then Inr (xs ! i) else Inl IndexError)"

text \<open>
  Character classes. \<open>\d\<close> and \<open>[A-Z]\<close> are the ASCII digits and capitals (no other
  code point below 256 is a decimal digit); \<open>\s\<close> and \<^verbatim>\<open>str.strip()\<close> use the same
  whitespace test, which below 256 holds of the code points 9 to 13, 28 to 32, 133
  and 160.
\<close>

definition is_digit :: "char \<Rightarrow> bool" where
  "is_digit c = (c \<in> set ''0123456789'')"

definition is_upper :: "char \<Rightarrow> bool" where
  "is_upper c = (c \<in> set ''ABCDEFGHIJKLMNOPQRSTUVWXYZ'')"

definition is_space :: "char \<Rightarrow> bool" where
  "is_space c = (of_char c \<in> {9, 10, 11, 12, 13, 28, 29, 30, 31, 32, 133, 160 :: nat})"

definition newline :: char where
  "newline = CHR 0x0A"

definition py_strip :: "string \<Rightarrow> string" where
  "py_strip s = rev (dropWhile is_space (rev (dropWhile is_space s)))"

text \<open>\<^verbatim>\<open>s.split(sep, maxsplit)\<close> for a one-character separator; \<open>None\<close> is no limit.\<close>

definition dec :: "nat option \<Rightarrow> nat option" where
  "dec hi = map_option (\<lambda>h. h - 1) hi"

fun py_split :: "char \<Rightarrow> nat option \<Rightarrow> string \<Rightarrow> string list" where
  "py_split sep ms [] = [[]]"
| "py_split sep ms (c # cs) =
     (if c = sep \<and> ms \<noteq> Some 0 then [] # py_split sep (dec ms) cs
      else (case py_split sep ms cs of [] \<Rightarrow> [[c]] | l # ls \<Rightarrow> (c # l) # ls))"

fun py_join :: "string \<Rightarrow> string list \<Rightarrow> string" where
  "py_join sep [] = []"
| "py_join sep [x] = x"
| "py_join sep (x # y # ys) = x @ sep @ py_join sep (y # ys)"

definition startswith :: "string \<Rightarrow> string \<Rightarrow> bool" where
  "startswith s p = (take (length p) s = p)"

text \<open>\<^verbatim>\<open>sub in s\<close>.\<close>

fun py_contains :: "string \<Rightarrow> string \<Rightarrow> bool" where
  "py_contains sub [] = (sub = [])"
| "py_contains sub (c # cs) = (startswith (c # cs) sub \<or> py_contains sub cs)"

text \<open>\<^verbatim>\<open>s[i:j]\<close> for non-negative bounds.\<close>

definition py_slice :: "nat \<Rightarrow> nat \<Rightarrow> string \<Rightarrow> string" where
  "py_slice i j s = take (j - i) (drop i s)"

text \<open>\<^verbatim>\<open>s.replace(old, new)\<close>: the occurrences of \<open>old\<close> from left to right, not overlapping.\<close>

function py_replace :: "string \<Rightarrow> string \<Rightarrow> string \<Rightarrow> string" where
  "py_replace old new [] = (if old = [] then new else [])"
| "py_replace old new (c # cs) =
     (if old = [] then new @ c # py_replace old new cs
      else if startswith (c # cs) old
        then new @ py_replace old new (drop (length old) (c # cs))
      else c # py_replace old new cs)"
  by pat_completeness auto
termination
  by (relation "measure (\<lambda>(old, new, s). length s)") auto

text \<open>
  \<^verbatim>\<open>int(s)\<close> in base ten: surrounding whitespace, one optional sign, then digits, where
  single underscores may stand between digits. Anything else raises \<open>ValueError\<close>.
\<close>

definition digit_val :: "char \<Rightarrow> int" where
  "digit_val c = int (of_char c) - 48"

fun int_digits :: "string \<Rightarrow> int \<Rightarrow> int option" where
  "int_digits [] acc = Some acc"
| "int_digits (c # cs) acc =
     (if is_digit c then int_digits cs (10 * acc + digit_val c)
      else if c = CHR ''_''
        then (case cs of [] \<Rightarrow> None
              | d # _ \<Rightarrow> if is_digit d then int_digits cs acc else None)
      else None)"

definition py_int :: "string \<Rightarrow> error + int" where
  "py_int s =
     (let t = py_strip s;
          neg = startswith t ''-'';
          d = (if startswith t ''-'' \<or> startswith t ''+'' then drop 1 t else t)
      in case d of
           [] \<Rightarrow> Inl ValueError
         | c # _ \<Rightarrow>
             if is_digit c
             then (case int_digits d 0 of
                     None \<Rightarrow> Inl ValueError
                   | Some n \<Rightarrow> Inr (if neg then - n else n))
             else Inl ValueError)"

text \<open>\<^verbatim>\<open>str(n)\<close>, which is what an f-string writes for an integer.\<close>

definition digit_char :: "nat \<Rightarrow> char" where
  "digit_char n = ''0123456789'' ! (n mod 10)"

function str_nat :: "nat \<Rightarrow> string" where
  "str_nat n = (if n < 10 then [digit_char n] else str_nat (n div 10) @ [digit_char n])"
  by pat_completeness auto
termination
  by (relation "measure id") auto

declare str_nat.simps [simp del]

definition py_str :: "int \<Rightarrow> string" where
  "py_str i = (if i < 0 then CHR ''-'' # str_nat (nat (- i)) else str_nat (nat i))"

section \<open>Regular expressions as the \<^verbatim>\<open>re\<close> module matches them\<close>

text \<open>
  The patterns of the program use literals, character classes with a repetition count
  (greedy or lazy), sequence, alternation, capture groups, a positive lookahead and \<open>$\<close>.
  The matcher is the backtracking matcher of \<^verbatim>\<open>re\<close>: it tries the alternatives in
  priority order (longest first for a greedy repetition, shortest first for a lazy one,
  left before right for alternation) and passes what it consumed to a continuation, which
  is the rest of the pattern. A lookahead is atomic and consumes nothing. Without the
  \<open>MULTILINE\<close> flag \<open>$\<close> holds at the end of the text and just before a newline that ends
  the text.
\<close>

type_synonym groups = "string \<rightharpoonup> string"

type_synonym result = "(groups \<times> string) option"

datatype re =
    Lit string
  | Rep "char \<Rightarrow> bool" nat "nat option" bool
  | Seq re re
  | Alt re re
  | Group string re
  | Look re
  | Eos

fun greedy :: "(char \<Rightarrow> bool) \<Rightarrow> nat \<Rightarrow> nat option \<Rightarrow> string \<Rightarrow> (string \<Rightarrow> result) \<Rightarrow> result" where
  "greedy p lo hi [] k = (if lo = 0 then k [] else None)"
| "greedy p lo hi (c # cs) k =
     (if p c \<and> hi \<noteq> Some 0 then
        (case greedy p (lo - 1) (dec hi) cs k of
           Some r \<Rightarrow> Some r
         | None \<Rightarrow> if lo = 0 then k (c # cs) else None)
      else if lo = 0 then k (c # cs) else None)"

fun lazy :: "(char \<Rightarrow> bool) \<Rightarrow> nat \<Rightarrow> nat option \<Rightarrow> string \<Rightarrow> (string \<Rightarrow> result) \<Rightarrow> result" where
  "lazy p lo hi [] k = (if lo = 0 then k [] else None)"
| "lazy p lo hi (c # cs) k =
     (if lo = 0 then
        (case k (c # cs) of
           Some r \<Rightarrow> Some r
         | None \<Rightarrow> if p c \<and> hi \<noteq> Some 0 then lazy p 0 (dec hi) cs k else None)
      else if p c \<and> hi \<noteq> Some 0 then lazy p (lo - 1) (dec hi) cs k else None)"

fun strip_prefix :: "string \<Rightarrow> string \<Rightarrow> string option" where
  "strip_prefix [] s = Some s"
| "strip_prefix (c # cs) [] = None"
| "strip_prefix (c # cs) (x # xs) = (if c = x then strip_prefix cs xs else None)"

fun rmatch :: "re \<Rightarrow> string \<Rightarrow> groups \<Rightarrow> (string \<Rightarrow> groups \<Rightarrow> result) \<Rightarrow> result" where
  "rmatch (Lit w) s g k = (case strip_prefix w s of None \<Rightarrow> None | Some s' \<Rightarrow> k s' g)"
| "rmatch (Rep p lo hi gr) s g k =
     (if gr then greedy p lo hi s (\<lambda>s'. k s' g) else lazy p lo hi s (\<lambda>s'. k s' g))"
| "rmatch (Seq a b) s g k = rmatch a s g (\<lambda>s' g'. rmatch b s' g' k)"
| "rmatch (Alt a b) s g k =
     (case rmatch a s g k of Some r \<Rightarrow> Some r | None \<Rightarrow> rmatch b s g k)"
| "rmatch (Group n r) s g k =
     rmatch r s g (\<lambda>s' g'. k s' (g'(n \<mapsto> take (length s - length s') s)))"
| "rmatch (Look r) s g k =
     (case rmatch r s g (\<lambda>s' g'. Some (g', s')) of
        None \<Rightarrow> None
      | Some (g', _) \<Rightarrow> k s g')"
| "rmatch Eos s g k = (if s = [] \<or> s = [newline] then k s g else None)"

text \<open>
  \<^verbatim>\<open>re.match\<close> matches at the start of the text. A match is returned as its start
  offset, its groups and the text after its end.
\<close>

record match =
  m_start :: nat
  m_groups :: groups
  m_rest :: string

definition re_match :: "re \<Rightarrow> string \<Rightarrow> match option" where
  "re_match r s =
     map_option (\<lambda>(g, s'). \<lparr>m_start = 0, m_groups = g, m_rest = s'\<rparr>)
       (rmatch r s Map.empty (\<lambda>s' g. Some (g, s')))"

text \<open>\<^verbatim>\<open>re.search\<close>: the match at the leftmost offset that has one.\<close>

fun search_from :: "re \<Rightarrow> nat \<Rightarrow> string \<Rightarrow> match option" where
  "search_from r i [] = map_option (\<lambda>m. m\<lparr>m_start := i\<rparr>) (re_match r [])"
| "search_from r i (c # cs) =
     (case re_match r (c # cs) of
        Some m \<Rightarrow> Some (m\<lparr>m_start := i\<rparr>)
      | None \<Rightarrow> search_from r (Suc i) cs)"

definition re_search :: "re \<Rightarrow> string \<Rightarrow> match option" where
  "re_search r s = search_from r 0 s"

text \<open>
  \<^verbatim>\<open>re.finditer\<close>: the successive matches, each search starting where the match before
  it ended. Both patterns the program iterates start with a five-character literal, so
  a match is never empty there; the iteration of the model ends at an empty match, whose
  special treatment by \<^verbatim>\<open>re\<close> is not modelled.
\<close>

function finditer_from :: "re \<Rightarrow> nat \<Rightarrow> string \<Rightarrow> match list" where
  "finditer_from r i s =
     (case search_from r i s of
        None \<Rightarrow> []
      | Some m \<Rightarrow>
          m # (if length (m_rest m) < length s
               then finditer_from r (i + (length s - length (m_rest m))) (m_rest m)
               else []))"
  by pat_completeness auto
termination
  by (relation "measure (\<lambda>(r, i, s). length s)") auto

declare finditer_from.simps [simp del]

definition re_finditer :: "re \<Rightarrow> string \<Rightarrow> match list" where
  "re_finditer r s = finditer_from r 0 s"

text \<open>\<^verbatim>\<open>m.group(n)\<close> is the text of the group, or \<open>None\<close> when it took no part.\<close>

definition group :: "match \<Rightarrow> string \<Rightarrow> string option" where
  "group m n = m_groups m n"

definition jopt :: "string option \<Rightarrow> json" where
  "jopt v = (case v of None \<Rightarrow> JNull | Some s \<Rightarrow> JStr s)"

text \<open>
  A string operation on the value of a group raises when the group is \<open>None\<close>
  (an \<open>AttributeError\<close> or a \<open>TypeError\<close>, both \<^const>\<open>TypeError\<close> here).
\<close>

definition need :: "string option \<Rightarrow> (string \<Rightarrow> error + 'a) \<Rightarrow> error + 'a" where
  "need v f = (case v of None \<Rightarrow> Inl TypeError | Some s \<Rightarrow> f s)"

text \<open>Pattern notation: \<open>x{n}\<close>, \<open>x+\<close>, \<open>x*\<close>, \<open>x?\<close>, \<open>x+?\<close> and a sequence of parts.\<close>

definition exactly :: "nat \<Rightarrow> (char \<Rightarrow> bool) \<Rightarrow> re" where
  "exactly n p = Rep p n (Some n) True"

definition plus :: "(char \<Rightarrow> bool) \<Rightarrow> re" where
  "plus p = Rep p 1 None True"

definition star :: "(char \<Rightarrow> bool) \<Rightarrow> re" where
  "star p = Rep p 0 None True"

definition opt :: "(char \<Rightarrow> bool) \<Rightarrow> re" where
  "opt p = Rep p 0 (Some 1) True"

definition lazy_plus :: "(char \<Rightarrow> bool) \<Rightarrow> re" where
  "lazy_plus p = Rep p 1 None False"

fun cat :: "re list \<Rightarrow> re" where
  "cat [] = Lit []"
| "cat [r] = r"
| "cat (r # rs) = Seq r (cat rs)"

text \<open>\<open>.\<close> under the \<open>DOTALL\<close> flag; the program uses \<open>.\<close> only with that flag.\<close>

definition dot_all :: "char \<Rightarrow> bool" where
  "dot_all c = True"

definition is_not :: "char \<Rightarrow> char \<Rightarrow> bool" where
  "is_not x c = (c \<noteq> x)"

section \<open>Amounts and dates\<close>

definition parse_amount :: "string \<Rightarrow> string" where
  "parse_amount amount_str = py_replace '','' ''.'' amount_str"

definition parse_date :: "string \<Rightarrow> error + string" where
  "parse_date date_str =
     (if length date_str = 6 then
        bind (py_int (py_slice 0 2 date_str)) (\<lambda>year.
          let year = (if year \<le> 50 then 2000 + year else 1900 + year);
              month = py_slice 2 4 date_str;
              day = py_slice 4 6 date_str
          in Inr (py_str year @ ''-'' @ month @ ''-'' @ day))
      else Inr date_str)"

section \<open>Header decoders\<close>

text \<open>
  \<^verbatim>\<open>F(?P<app_id>\d{2})(?P<lt_address>[A-Z0-9]{12})(?P<session>\d{4})(?P<sequence>\d{6})\<close>
\<close>

definition basic_header_pattern :: re where
  "basic_header_pattern =
     cat [Lit ''F'',
          Group ''app_id'' (exactly 2 is_digit),
          Group ''lt_address'' (exactly 12 (\<lambda>c. is_upper c \<or> is_digit c)),
          Group ''session'' (exactly 4 is_digit),
          Group ''sequence'' (exactly 6 is_digit)]"

definition parse_basic_header :: "string \<Rightarrow> dict" where
  "parse_basic_header header =
     (case re_match basic_header_pattern header of
        Some m \<Rightarrow>
          [(''Application_Id'', JStr ''F''),
           (''Service_Id'', jopt (group m ''app_id'')),
           (''LT_Address'', jopt (group m ''lt_address'')),
           (''Session'', jopt (group m ''session'')),
           (''Sequence_No'', jopt (group m ''sequence''))]
      | None \<Rightarrow> [])"

text \<open>
  \<^verbatim>\<open>I(?P<mt>\d{3})(?P<recipient>[A-Z0-9]{12})(?P<priority>[A-Z])\<close> and
  \<^verbatim>\<open>O(?P<mt>\d{3})(?P<input_time>\d{10})(?P<mir>[A-Z0-9]{28})(?P<priority>[A-Z])\<close>
\<close>

definition input_header_pattern :: re where
  "input_header_pattern =
     cat [Lit ''I'',
          Group ''mt'' (exactly 3 is_digit),
          Group ''recipient'' (exactly 12 (\<lambda>c. is_upper c \<or> is_digit c)),
          Group ''priority'' (exactly 1 is_upper)]"

definition output_header_pattern :: re where
  "output_header_pattern =
     cat [Lit ''O'',
          Group ''mt'' (exactly 3 is_digit),
          Group ''input_time'' (exactly 10 is_digit),
          Group ''mir'' (exactly 28 (\<lambda>c. is_upper c \<or> is_digit c)),
          Group ''priority'' (exactly 1 is_upper)]"

definition parse_application_header :: "string \<Rightarrow> dict" where
  "parse_application_header header =
     (if startswith header ''I'' then
        (case re_match input_header_pattern header of
           Some m \<Rightarrow>
             [(''IO_ID'', JStr ''I''),
              (''MT'', jopt (group m ''mt'')),
              (''Recipient'', jopt (group m ''recipient'')),
              (''Message_Priority'', jopt (group m ''priority''))]
         | None \<Rightarrow> [])
      else if startswith header ''O'' then
        (case re_match output_header_pattern header of
           Some m \<Rightarrow>
             [(''IO_ID'', JStr ''O''),
              (''MT'', jopt (group m ''mt'')),
              (''Input_Time'', jopt (group m ''input_time'')),
              (''MIR'', jopt (group m ''mir'')),
              (''Message_Priority'', jopt (group m ''priority''))]
         | None \<Rightarrow> [])
      else [])"

text \<open>
  The four sub-tags of block 3 and the five blocks 1, 2, 3 and 5 share one shape:
  \<^verbatim>\<open>{108:([^}]+)}\<close>, \<^verbatim>\<open>{1:([^}]+)}\<close>.
\<close>

definition brace_pattern :: "string \<Rightarrow> re" where
  "brace_pattern tag =
     cat [Lit (''{'' @ tag @ '':''), Group ''1'' (plus (is_not CHR ''}'')), Lit ''}'']"

definition user_tag :: "string \<Rightarrow> string \<Rightarrow> string \<Rightarrow> dict \<Rightarrow> dict" where
  "user_tag tag key header result =
     (case re_search (brace_pattern tag) header of
        Some m \<Rightarrow> AList.update key (jopt (group m ''1'')) result
      | None \<Rightarrow> result)"

definition parse_user_header :: "string \<Rightarrow> dict" where
  "parse_user_header header =
     user_tag ''121'' ''UniqueEndToEndTransactionReference_121'' header
       (user_tag ''111'' ''Service_Type_Identifier'' header
         (user_tag ''113'' ''Bank_Priority_Code'' header
           (user_tag ''108'' ''MUR'' header [])))"

section \<open>Field decoders of block 4\<close>

text \<open>
  \<^verbatim>\<open>:13C:/(?P<code>[^/]+)/(?P<time>\d{4})(?P<sign>[+-])(?P<offset>\d{4})\<close>
\<close>

definition pattern_13c :: re where
  "pattern_13c =
     cat [Lit '':13C:/'',
          Group ''code'' (plus (is_not CHR ''/'')),
          Lit ''/'',
          Group ''time'' (exactly 4 is_digit),
          Group ''sign'' (exactly 1 (\<lambda>c. c = CHR ''+'' \<or> c = CHR ''-'')),
          Group ''offset'' (exactly 4 is_digit)]"

definition time_indication :: "match \<Rightarrow> error + json" where
  "time_indication m =
     need (group m ''time'') (\<lambda>time_str.
     need (group m ''offset'') (\<lambda>offset_str.
       Inr (JObj
         [(''F13C_Code'', jopt (group m ''code'')),
          (''F13C_Time'', JStr (take 2 time_str @ '':'' @ drop 2 time_str @ '':00'')),
          (''F13C_Sign'', jopt (group m ''sign'')),
          (''F13C_Offset'', JStr (take 2 offset_str @ '':'' @ drop 2 offset_str @ '':00''))])))"

fun collect :: "('a \<Rightarrow> error + 'b) \<Rightarrow> 'a list \<Rightarrow> error + 'b list" where
  "collect f [] = Inr []"
| "collect f (x # xs) = bind (f x) (\<lambda>y. bind (collect f xs) (\<lambda>ys. Inr (y # ys)))"

definition parse_field_13c :: "string \<Rightarrow> error + json list" where
  "parse_field_13c text = collect time_indication (re_finditer pattern_13c text)"

definition parse_field_50f :: "string \<Rightarrow> error + dict" where
  "parse_field_50f v =
     (let lines = py_split newline None (py_strip v);
          result = []
      in bind (if lines \<noteq> []
               then bind (py_index lines 0) (\<lambda>l.
                      Inr (AList.update ''F50F_PartyIdentifier'' (JStr l) result))
               else Inr result) (\<lambda>result.
           Inr (if length lines > 1
                then AList.update ''F50F_NameAddr''
                       (JStr (py_join [newline] (drop 1 lines))) result
                else result)))"

text \<open>
  The patterns of the scalar fields: \<^verbatim>\<open>:20:([^\s:]+)\<close>, \<^verbatim>\<open>:23E:([^:]+)\<close>,
  \<^verbatim>\<open>:32A:(\d{6})([A-Z]{3})([\d,]+)\<close> and \<^verbatim>\<open>:33B:([A-Z]{3})([\d,]+)\<close>.
\<close>

definition token_pattern :: "string \<Rightarrow> re" where
  "token_pattern tag =
     cat [Lit ('':'' @ tag @ '':''),
          Group ''1'' (plus (\<lambda>c. \<not> is_space c \<and> c \<noteq> CHR '':''))]"

definition colon_pattern :: "string \<Rightarrow> re" where
  "colon_pattern tag =
     cat [Lit ('':'' @ tag @ '':''), Group ''1'' (plus (is_not CHR '':''))]"

definition pattern_32a :: re where
  "pattern_32a =
     cat [Lit '':32A:'',
          Group ''1'' (exactly 6 is_digit),
          Group ''2'' (exactly 3 is_upper),
          Group ''3'' (plus (\<lambda>c. is_digit c \<or> c = CHR '',''))]"

definition amount_pattern :: "string \<Rightarrow> re" where
  "amount_pattern tag =
     cat [Lit ('':'' @ tag @ '':''),
          Group ''1'' (exactly 3 is_upper),
          Group ''2'' (plus (\<lambda>c. is_digit c \<or> c = CHR '',''))]"

text \<open>
  The pattern of the multi-line fields, under \<open>DOTALL\<close>:
  \<^verbatim>\<open>:50F:(.+?)(?=:\d{2}[A-Z]?:|$)\<close>; for field 59 the tag is \<^verbatim>\<open>:59A?:\<close>.
\<close>

definition tag_delimiter :: re where
  "tag_delimiter = cat [Lit '':'', exactly 2 is_digit, opt is_upper, Lit '':'']"

definition span_tail :: "re list" where
  "span_tail = [Group ''1'' (lazy_plus dot_all), Look (Alt tag_delimiter Eos)]"

definition span_pattern :: "string \<Rightarrow> re" where
  "span_pattern tag = cat (Lit ('':'' @ tag @ '':'') # span_tail)"

definition pattern_59 :: re where
  "pattern_59 = cat ([Lit '':59'', opt (\<lambda>c. c = CHR ''A''), Lit '':''] @ span_tail)"

text \<open>
  Each field is one step on the dictionary \<^verbatim>\<open>result["A"]\<close>. The steps run in the
  order of the source; a step that raises ends the run.
\<close>

fun run_steps :: "('s \<Rightarrow> error + 's) list \<Rightarrow> 's \<Rightarrow> error + 's" where
  "run_steps [] d = Inr d"
| "run_steps (f # fs) d = bind (f d) (run_steps fs)"

text \<open>Fields 20 and 23B: the token, stripped.\<close>

definition field_token :: "string \<Rightarrow> string \<Rightarrow> string \<Rightarrow> string \<Rightarrow> dict \<Rightarrow> error + dict" where
  "field_token tag key sub text a =
     (case re_search (token_pattern tag) text of
        Some m \<Rightarrow> need (group m ''1'') (\<lambda>v.
          Inr (AList.update key (JObj [(sub, JStr (py_strip v))]) a))
      | None \<Rightarrow> Inr a)"

text \<open>Fields 23E, 26T, 36, 51A, 52A, 53B, 71A and 71G: everything up to the next colon, stripped.\<close>

definition field_colon :: "string \<Rightarrow> string \<Rightarrow> string \<Rightarrow> string \<Rightarrow> dict \<Rightarrow> error + dict" where
  "field_colon tag key sub text a =
     (case re_search (colon_pattern tag) text of
        Some m \<Rightarrow> need (group m ''1'') (\<lambda>v.
          Inr (AList.update key (JObj [(sub, JStr (py_strip v))]) a))
      | None \<Rightarrow> Inr a)"

text \<open>Fields 70, 72 and 77B: the span, stripped.\<close>

definition field_span :: "string \<Rightarrow> string \<Rightarrow> string \<Rightarrow> string \<Rightarrow> dict \<Rightarrow> error + dict" where
  "field_span tag key sub text a =
     (case re_search (span_pattern tag) text of
        Some m \<Rightarrow> need (group m ''1'') (\<lambda>v.
          Inr (AList.update key (JObj [(sub, JStr (py_strip v))]) a))
      | None \<Rightarrow> Inr a)"

definition field_13c :: "string \<Rightarrow> dict \<Rightarrow> error + dict" where
  "field_13c text a =
     bind (parse_field_13c text) (\<lambda>time_indications.
       if time_indications \<noteq> [] then
         (if length time_indications = 1
          then bind (py_index time_indications 0) (\<lambda>t.
                 Inr (AList.update ''A1'' (JObj [(''F13C'', t)]) a))
          else Inr (AList.update ''A1'' (JObj [(''F13C'', JList time_indications)]) a))
       else Inr a)"

definition field_32a :: "string \<Rightarrow> dict \<Rightarrow> error + dict" where
  "field_32a text a =
     (case re_search pattern_32a text of
        Some m \<Rightarrow>
          need (group m ''1'') (\<lambda>d.
          bind (parse_date d) (\<lambda>date.
          need (group m ''3'') (\<lambda>amt.
            Inr (AList.update ''F32A''
                   (JObj [(''F32A_Date'', JStr date),
                          (''F32A_Curr'', jopt (group m ''2'')),
                          (''F32A_Amount'', JStr (parse_amount amt))]) a))))
      | None \<Rightarrow> Inr a)"

definition field_33b :: "string \<Rightarrow> dict \<Rightarrow> error + dict" where
  "field_33b text a =
     (case re_search (amount_pattern ''33B'') text of
        Some m \<Rightarrow>
          need (group m ''2'') (\<lambda>amt.
            Inr (AList.update ''F33B''
                   (JObj [(''F33B_Curr'', jopt (group m ''1'')),
                          (''F33B_Amount'', JStr (parse_amount amt))]) a))
      | None \<Rightarrow> Inr a)"

definition field_50f :: "string \<Rightarrow> dict \<Rightarrow> error + dict" where
  "field_50f text a =
     (case re_search (span_pattern ''50F'') text of
        Some m \<Rightarrow> need (group m ''1'') (\<lambda>v.
          bind (parse_field_50f v) (\<lambda>d. Inr (AList.update ''F50F'' (JObj d) a)))
      | None \<Rightarrow> Inr a)"

definition field_50k :: "string \<Rightarrow> dict \<Rightarrow> error + dict" where
  "field_50k text a =
     (if \<not> py_contains '':50F:'' text then
        (case re_search (span_pattern ''50K'') text of
           Some m \<Rightarrow> need (group m ''1'') (\<lambda>v.
             Inr (AList.update ''F50K''
                    (JObj [(''F50K_OrderingCustomer'', JStr (py_strip v))]) a))
         | None \<Rightarrow> Inr a)
      else Inr a)"

text \<open>
  Fields 52D, 54A and 59 split the stripped span at its first newline. When the first
  line starts with a slash it is the account, and the remainder, if there is one, goes
  under the second key; otherwise the second key takes \<open>whole\<close>: the stripped span for
  52D and 59, the first line for 54A.
\<close>

definition party_data ::
    "string \<Rightarrow> string \<Rightarrow> (string \<Rightarrow> string list \<Rightarrow> error + string) \<Rightarrow> string \<Rightarrow> error + dict" where
  "party_data acc_key name_key whole v =
     (let lines = py_split newline (Some 1) (py_strip v);
          field_data = []
      in bind (py_index lines 0) (\<lambda>l0.
           if startswith l0 ''/'' then
             (let field_data = AList.update acc_key (JStr l0) field_data
              in if length lines > 1
                 then bind (py_index lines 1) (\<lambda>l1.
                        Inr (AList.update name_key (JStr l1) field_data))
                 else Inr field_data)
           else bind (whole v lines) (\<lambda>w.
                  Inr (AList.update name_key (JStr w) field_data))))"

definition field_52d :: "string \<Rightarrow> dict \<Rightarrow> error + dict" where
  "field_52d text a =
     (case re_search (span_pattern ''52D'') text of
        Some m \<Rightarrow> need (group m ''1'') (\<lambda>v.
          bind (party_data ''F52D_AccountId'' ''F52D_NameAddr''
                  (\<lambda>v lines. Inr (py_strip v)) v) (\<lambda>field_data.
            Inr (AList.update ''F52D'' (JObj field_data) a)))
      | None \<Rightarrow> Inr a)"

definition field_54a :: "string \<Rightarrow> dict \<Rightarrow> error + dict" where
  "field_54a text a =
     (case re_search (span_pattern ''54A'') text of
        Some m \<Rightarrow> need (group m ''1'') (\<lambda>v.
          bind (party_data ''F54A_AccountId'' ''F54A_BIC''
                  (\<lambda>v lines. py_index lines 0) v) (\<lambda>field_data.
            Inr (AList.update ''F54A'' (JObj field_data) a)))
      | None \<Rightarrow> Inr a)"

definition field_59 :: "string \<Rightarrow> dict \<Rightarrow> error + dict" where
  "field_59 text a =
     (case re_search pattern_59 text of
        Some m \<Rightarrow> need (group m ''1'') (\<lambda>v.
          bind (party_data ''F59_ACC_ID_Party'' ''F59_Name_addr_Party''
                  (\<lambda>v lines. Inr (py_strip v)) v) (\<lambda>field_data.
            Inr (AList.update ''F59'' (JObj field_data) a)))
      | None \<Rightarrow> Inr a)"

text \<open>
  Fields 56 and 57: the loop over the suffixes leaves at the first suffix whose pattern
  matches. The key is \<^verbatim>\<open>f"F56{suffix}"\<close>, its sub-key \<^verbatim>\<open>f"F56{suffix}_Intermediary"\<close>.
\<close>

fun field_suffixes :: "string \<Rightarrow> string \<Rightarrow> string list \<Rightarrow> string \<Rightarrow> dict \<Rightarrow> error + dict" where
  "field_suffixes num name [] text a = Inr a"
| "field_suffixes num name (suffix # rest) text a =
     (case re_search (span_pattern (num @ suffix)) text of
        Some m \<Rightarrow> need (group m ''1'') (\<lambda>v.
          Inr (AList.update (''F'' @ num @ suffix)
                 (JObj [(''F'' @ num @ suffix @ name, JStr (py_strip v))]) a))
      | None \<Rightarrow> field_suffixes num name rest text a)"

definition field_56 :: "string \<Rightarrow> dict \<Rightarrow> error + dict" where
  "field_56 = field_suffixes ''56'' ''_Intermediary'' [''A'', ''C'', ''D'']"

definition field_57 :: "string \<Rightarrow> dict \<Rightarrow> error + dict" where
  "field_57 = field_suffixes ''57'' ''_AccountWithInstitution'' [''A'', ''B'', ''C'', ''D'']"

definition charge :: "match \<Rightarrow> error + json" where
  "charge m =
     need (group m ''2'') (\<lambda>amt.
       Inr (JObj [(''F71F_Curr'', jopt (group m ''1'')),
                  (''F71F_Amount'', JStr (parse_amount amt))]))"

definition field_71f :: "string \<Rightarrow> dict \<Rightarrow> error + dict" where
  "field_71f text a =
     bind (collect charge (re_finditer (amount_pattern ''71F'') text)) (\<lambda>charges.
       if charges \<noteq> [] then
         (if length charges = 1
          then bind (py_index charges 0) (\<lambda>c.
                 Inr (AList.update ''A3'' (JObj [(''F71F'', c)]) a))
          else Inr (AList.update ''A3'' (JObj [(''F71F'', JList charges)]) a))
       else Inr a)"

definition text_fields :: "string \<Rightarrow> (dict \<Rightarrow> error + dict) list" where
  "text_fields text =
     [field_token ''20'' ''F20'' ''F20_TRN'' text,
      field_13c text,
      field_token ''23B'' ''F23B'' ''F23B_BankOpCode'' text,
      field_colon ''23E'' ''F23E'' ''F23E_InstructionCode'' text,
      field_colon ''26T'' ''F26T'' ''F26T_TransType'' text,
      field_32a text,
      field_33b text,
      field_colon ''36'' ''F36'' ''F36_ExchangeRate'' text,
      field_50f text,
      field_50k text,
      field_colon ''51A'' ''F51A'' ''F51A_SendingInstitution'' text,
      field_52d text,
      field_colon ''52A'' ''F52A'' ''F52A_BIC'' text,
      field_colon ''53B'' ''F53B'' ''F53B_Account'' text,
      field_54a text,
      field_56 text,
      field_57 text,
      field_59 text,
      field_span ''70'' ''F70'' ''F70_PaymentDetails'' text,
      field_colon ''71A'' ''F71A'' ''F71A_ChargesCode'' text,
      field_71f text,
      field_colon ''71G'' ''F71G'' ''F71G_ReceiverCharges'' text,
      field_span ''72'' ''F72'' ''F72_General'' text,
      field_span ''77B'' ''F77B'' ''F77B_Narrative'' text]"

definition parse_text_block :: "string \<Rightarrow> error + dict" where
  "parse_text_block text =
     bind (run_steps (text_fields text) []) (\<lambda>a. Inr [(''A'', JObj a)])"

section \<open>The converter\<close>

text \<open>Block 4 is found by \<^verbatim>\<open>{4:\s*(.+?)\s*-}\<close> under \<open>DOTALL\<close>.\<close>

definition block4_pattern :: re where
  "block4_pattern =
     cat [Lit ''{4:'', star is_space, Group ''1'' (lazy_plus dot_all), star is_space, Lit ''-}'']"

definition block_header :: "string \<Rightarrow> (string \<Rightarrow> dict) \<Rightarrow> string \<Rightarrow> dict \<Rightarrow> error + dict" where
  "block_header num parse mt103_message d =
     (case re_search (brace_pattern num) mt103_message of
        Some m \<Rightarrow> need (group m ''1'') (\<lambda>b. Inr (dict_update d (parse b)))
      | None \<Rightarrow> Inr d)"

definition block_text :: "string \<Rightarrow> dict \<Rightarrow> error + dict" where
  "block_text mt103_message d =
     (case re_search block4_pattern mt103_message of
        Some m \<Rightarrow> need (group m ''1'') (\<lambda>b.
          bind (parse_text_block b) (\<lambda>text_data. Inr (dict_update d text_data)))
      | None \<Rightarrow> Inr d)"

definition block_trailer :: "string \<Rightarrow> dict \<Rightarrow> error + dict" where
  "block_trailer mt103_message d =
     (case re_search (brace_pattern ''5'') mt103_message of
        Some m \<Rightarrow> Inr (AList.update ''Trailer'' (jopt (group m ''1'')) d)
      | None \<Rightarrow> Inr d)"

definition mt103_to_json :: "string \<Rightarrow> error + json" where
  "mt103_to_json mt103_message =
     (let mt103_message = py_strip mt103_message
      in bind (run_steps
                 [block_header ''1'' parse_basic_header mt103_message,
                  block_header ''2'' parse_application_header mt103_message,
                  block_header ''3'' parse_user_header mt103_message,
                  block_text mt103_message,
                  block_trailer mt103_message] [])
           (\<lambda>d. Inr (JObj [(''MT103'', JObj d)])))"

section \<open>What a match says about the text\<close>

text \<open>
  The relation \<open>sem r s g s' g'\<close> reads a pattern declaratively: \<open>r\<close> matches a prefix
  of \<open>s\<close> and leaves \<open>s'\<close>, turning the groups \<open>g\<close> into \<open>g'\<close>. Whatever the matcher
  returns is such a match, which is how the properties of the captured text are derived
  below.
\<close>

definition within :: "nat option \<Rightarrow> nat \<Rightarrow> bool" where
  "within hi n = (case hi of None \<Rightarrow> True | Some h \<Rightarrow> n \<le> h)"

fun sem :: "re \<Rightarrow> string \<Rightarrow> groups \<Rightarrow> string \<Rightarrow> groups \<Rightarrow> bool" where
  "sem (Lit w) s g s' g' = (s = w @ s' \<and> g' = g)"
| "sem (Rep p lo hi gr) s g s' g' =
     (\<exists>w. s = w @ s' \<and> list_all p w \<and> lo \<le> length w \<and> within hi (length w) \<and> g' = g)"
| "sem (Seq a b) s g s' g' = (\<exists>s1 g1. sem a s g s1 g1 \<and> sem b s1 g1 s' g')"
| "sem (Alt a b) s g s' g' = (sem a s g s' g' \<or> sem b s g s' g')"
| "sem (Group n r) s g s' g' =
     (\<exists>g1. sem r s g s' g1 \<and> g' = g1(n \<mapsto> take (length s - length s') s))"
| "sem (Look r) s g s' g' = (s' = s \<and> (\<exists>s1. sem r s g s1 g'))"
| "sem Eos s g s' g' = (s' = s \<and> g' = g \<and> (s = [] \<or> s = [newline]))"

text \<open>
  The shape \<^verbatim>\<open>:\d{2}[A-Z]?:\<close> of a tag delimiter read directly from the text, the places
  where the lookahead of a multi-line field holds (a tag delimiter, the end of the text,
  or a newline that ends the text), and the shortest prefix that ends at such a place.
\<close>

fun delim_at :: "string \<Rightarrow> bool" where
  "delim_at (c0 # d1 # d2 # c3 # rest) =
     (c0 = CHR '':'' \<and> is_digit d1 \<and> is_digit d2 \<and>
      (c3 = CHR '':'' \<or> (is_upper c3 \<and> take 1 rest = '':'')))"
| "delim_at _ = False"

definition stop_at :: "string \<Rightarrow> bool" where
  "stop_at s = (delim_at s \<or> s = [] \<or> s = [newline])"

fun upto_stop :: "string \<Rightarrow> string \<times> string" where
  "upto_stop [] = ([], [])"
| "upto_stop (c # cs) =
     (if stop_at (c # cs) then ([], c # cs)
      else (case upto_stop cs of (w, r) \<Rightarrow> (c # w, r)))"

text \<open>
  A step is well behaved for a set of keys when it never raises and changes the
  dictionary at those keys only; it keeps a key when it never raises and leaves that key
  as it is. A pattern is consuming when each of its matches takes at least one character.
\<close>

definition step_ok :: "string set \<Rightarrow> (dict \<Rightarrow> error + dict) \<Rightarrow> bool" where
  "step_ok K f = (\<forall>a. \<exists>a'. f a = Inr a' \<and> (\<forall>k. k \<notin> K \<longrightarrow> map_of a' k = map_of a k))"

definition keeps :: "string \<Rightarrow> (dict \<Rightarrow> error + dict) \<Rightarrow> bool" where
  "keeps k f = (\<forall>a. \<exists>a'. f a = Inr a' \<and> map_of a' k = map_of a k)"

definition consuming :: "re \<Rightarrow> bool" where
  "consuming r = (\<forall>t g s' g'. sem r t g s' g' \<longrightarrow> length s' < length t)"

text \<open>
  The stripped span of a multi-line tag, when the tag has one, and the one-entry object
  a field decoder stores for it.
\<close>

definition span_value :: "string \<Rightarrow> string \<Rightarrow> string option" where
  "span_value tag text =
     (case re_search (span_pattern tag) text of
        None \<Rightarrow> None
      | Some m \<Rightarrow> map_option py_strip (group m ''1''))"

definition entry :: "string \<Rightarrow> string option \<Rightarrow> json option" where
  "entry sub v = map_option (\<lambda>s. JObj [(sub, JStr s)]) v"

text \<open>
  What each block contributes to the document: the content a block pattern captures, the
  fields a header decoder returns for it (none when the block is not found), the
  dictionary of block 4 and the trailer entry.
\<close>

definition block_content :: "re \<Rightarrow> string \<Rightarrow> string option" where
  "block_content p s = (case re_search p s of None \<Rightarrow> None | Some m \<Rightarrow> group m ''1'')"

definition header_fields :: "(string \<Rightarrow> dict) \<Rightarrow> string \<Rightarrow> string \<Rightarrow> dict" where
  "header_fields parse num s =
     (case block_content (brace_pattern num) s of None \<Rightarrow> [] | Some b \<Rightarrow> parse b)"

definition text_data :: "string \<Rightarrow> dict" where
  "text_data s =
     (case block_content block4_pattern s of
        None \<Rightarrow> []
      | Some b \<Rightarrow> (case parse_text_block b of Inl e \<Rightarrow> [] | Inr td \<Rightarrow> td))"

definition trailer_data :: "string \<Rightarrow> dict" where
  "trailer_data s =
     (case re_search (brace_pattern ''5'') s of
        None \<Rightarrow> []
      | Some m \<Rightarrow> [(''Trailer'', jopt (group m ''1''))])"

section \<open>The matcher returns matches of the pattern\<close>

lemma within_dec: "hi \<noteq> Some 0 \<Longrightarrow> within (dec hi) n \<Longrightarrow> within hi (Suc n)"
  by (cases hi) (auto simp: within_def dec_def)

lemma greedy_sound:
  "greedy p lo hi s k = Some r \<Longrightarrow>
   \<exists>w s'. s = w @ s' \<and> list_all p w \<and> lo \<le> length w \<and> within hi (length w) \<and> k s' = Some r"
proof (induction s arbitrary: lo hi)
  case Nil
  then show ?case by (auto simp: within_def split: if_splits option.splits)
next
  case (Cons c cs)
  have stop: "lo = 0 \<and> k (c # cs) = Some r \<Longrightarrow> ?case"
    by (rule exI [of _ "[]"]) (auto simp: within_def split: option.splits)
  show ?case
  proof (cases "greedy p (lo - 1) (dec hi) cs k = Some r \<and> p c \<and> hi \<noteq> Some 0")
    case True
    then obtain w s' where w: "cs = w @ s'" "list_all p w" "lo - 1 \<le> length w"
      "within (dec hi) (length w)" "k s' = Some r"
      using Cons.IH by blast
    show ?thesis
      by (rule exI [of _ "c # w"]) (use w True in \<open>auto intro: within_dec\<close>)
  next
    case False
    with Cons.prems have "lo = 0 \<and> k (c # cs) = Some r"
      by (auto split: if_splits option.splits)
    then show ?thesis by (rule stop)
  qed
qed

lemma lazy_sound:
  "lazy p lo hi s k = Some r \<Longrightarrow>
   \<exists>w s'. s = w @ s' \<and> list_all p w \<and> lo \<le> length w \<and> within hi (length w) \<and> k s' = Some r"
proof (induction s arbitrary: lo hi)
  case Nil
  then show ?case by (auto simp: within_def split: if_splits option.splits)
next
  case (Cons c cs)
  have stop: "lo = 0 \<and> k (c # cs) = Some r \<Longrightarrow> ?case"
    by (rule exI [of _ "[]"]) (auto simp: within_def split: option.splits)
  show ?case
  proof (cases "lazy p (lo - 1) (dec hi) cs k = Some r \<and> p c \<and> hi \<noteq> Some 0")
    case True
    then obtain w s' where w: "cs = w @ s'" "list_all p w" "lo - 1 \<le> length w"
      "within (dec hi) (length w)" "k s' = Some r"
      using Cons.IH by blast
    show ?thesis
      by (rule exI [of _ "c # w"]) (use w True in \<open>auto intro: within_dec\<close>)
  next
    case False
    with Cons.prems have "lo = 0 \<and> k (c # cs) = Some r"
      by (auto split: if_splits option.splits)
    then show ?thesis by (rule stop)
  qed
qed

lemma strip_prefix_Some: "strip_prefix w s = Some s' \<longleftrightarrow> s = w @ s'"
  by (induction w s rule: strip_prefix.induct) auto

lemma rmatch_sound:
  "rmatch r s g k = Some res \<Longrightarrow> \<exists>s' g'. sem r s g s' g' \<and> k s' g' = Some res"
proof (induction r arbitrary: s g k res)
  case (Lit w)
  then obtain s' where "strip_prefix w s = Some s'" "k s' g = Some res"
    by (cases "strip_prefix w s") simp_all
  then show ?case by (auto simp: strip_prefix_Some)
next
  case (Rep p lo hi gr)
  have "\<exists>w s'. s = w @ s' \<and> list_all p w \<and> lo \<le> length w \<and> within hi (length w) \<and>
          k s' g = Some res"
  proof (cases gr)
    case True
    with Rep have "greedy p lo hi s (\<lambda>s'. k s' g) = Some res" by simp
    from greedy_sound [OF this] show ?thesis .
  next
    case False
    with Rep have "lazy p lo hi s (\<lambda>s'. k s' g) = Some res" by simp
    from lazy_sound [OF this] show ?thesis .
  qed
  then obtain w s' where "s = w @ s'" "list_all p w" "lo \<le> length w" "within hi (length w)"
    "k s' g = Some res" by blast
  then have "sem (Rep p lo hi gr) s g s' g \<and> k s' g = Some res" by auto
  then show ?case by blast
next
  case (Seq a b)
  from Seq.prems have "rmatch a s g (\<lambda>s' g'. rmatch b s' g' k) = Some res" by simp
  from Seq.IH(1) [OF this] obtain s1 g1 where a: "sem a s g s1 g1" "rmatch b s1 g1 k = Some res"
    by blast
  from Seq.IH(2) [OF a(2)] obtain s' g' where b: "sem b s1 g1 s' g'" "k s' g' = Some res"
    by blast
  from a(1) b have "sem (Seq a b) s g s' g' \<and> k s' g' = Some res" by auto
  then show ?case by blast
next
  case (Alt a b)
  show ?case
  proof (cases "rmatch a s g k")
    case None
    with Alt.prems have "rmatch b s g k = Some res" by simp
    from Alt.IH(2) [OF this] obtain s' g' where "sem b s g s' g'" "k s' g' = Some res" by blast
    then have "sem (Alt a b) s g s' g' \<and> k s' g' = Some res" by simp
    then show ?thesis by blast
  next
    case (Some r')
    with Alt.prems have "rmatch a s g k = Some res" by simp
    from Alt.IH(1) [OF this] obtain s' g' where "sem a s g s' g'" "k s' g' = Some res" by blast
    then have "sem (Alt a b) s g s' g' \<and> k s' g' = Some res" by simp
    then show ?thesis by blast
  qed
next
  case (Group n r)
  from Group.prems
  have "rmatch r s g (\<lambda>s' g'. k s' (g'(n \<mapsto> take (length s - length s') s))) = Some res"
    by simp
  from Group.IH [OF this] obtain s' g1 where
    r: "sem r s g s' g1" "k s' (g1(n \<mapsto> take (length s - length s') s)) = Some res"
    by blast
  from r(1) have "sem (Group n r) s g s' (g1(n \<mapsto> take (length s - length s') s))"
    by auto
  with r(2) show ?case by blast
next
  case (Look r)
  from Look.prems obtain g1 s1 where l: "rmatch r s g (\<lambda>s' g'. Some (g', s')) = Some (g1, s1)"
    "k s g1 = Some res"
    by (cases "rmatch r s g (\<lambda>s' g'. Some (g', s'))") auto
  from Look.IH [OF l(1)] obtain s2 g2 where "sem r s g s2 g2" "Some (g2, s2) = Some (g1, s1)"
    by blast
  then have "sem (Look r) s g s g1" by auto
  with l(2) show ?case by blast
next
  case Eos
  then have "sem Eos s g s g \<and> k s g = Some res" by (simp split: if_splits)
  then show ?case by blast
qed

lemma re_match_sound:
  "re_match r s = Some m \<Longrightarrow> sem r s Map.empty (m_rest m) (m_groups m)"
  unfolding re_match_def by (auto dest!: rmatch_sound)

lemma search_from_sound:
  "search_from r i s = Some m \<Longrightarrow>
   \<exists>pre t. s = pre @ t \<and> m_start m = i + length pre \<and> sem r t Map.empty (m_rest m) (m_groups m)"
proof (induction s arbitrary: i)
  case Nil
  then show ?case by (auto dest!: re_match_sound)
next
  case (Cons c cs)
  show ?case
  proof (cases "re_match r (c # cs)")
    case None
    with Cons.prems have "search_from r (Suc i) cs = Some m" by simp
    from Cons.IH [OF this] obtain pre t where
      "cs = pre @ t" "m_start m = Suc i + length pre" "sem r t Map.empty (m_rest m) (m_groups m)"
      by blast
    then show ?thesis by (intro exI [of _ "c # pre"] exI [of _ t]) simp
  next
    case (Some m')
    with Cons.prems have m: "m = m'\<lparr>m_start := i\<rparr>" by simp
    from re_match_sound [OF Some] show ?thesis
      by (intro exI [of _ "[]"] exI [of _ "c # cs"]) (simp add: m)
  qed
qed

lemma re_search_sound:
  "re_search r s = Some m \<Longrightarrow>
   \<exists>pre t. s = pre @ t \<and> m_start m = length pre \<and> sem r t Map.empty (m_rest m) (m_groups m)"
  unfolding re_search_def by (drule search_from_sound) simp

section \<open>Dates and amounts\<close>


lemma digit_not_space: "is_digit c \<Longrightarrow> \<not> is_space c"
  by (auto simp: is_digit_def is_space_def)

lemma digit_val_range: "is_digit c \<Longrightarrow> 0 \<le> digit_val c \<and> digit_val c \<le> 9"
  by (auto simp: is_digit_def digit_val_def)

lemma digit_char_val: "is_digit c \<Longrightarrow> digit_char (nat (digit_val c)) = c"
  by (auto simp: is_digit_def digit_val_def digit_char_def)

lemma digit_char_mod: "digit_char (n mod 10) = digit_char n"
  by (simp add: digit_char_def)

lemma str_nat_four:
  assumes "1000 \<le> n" "n < 10000"
  shows "str_nat n =
    [digit_char (n div 1000), digit_char (n div 100), digit_char (n div 10), digit_char n]"
proof -
  have n1: "100 \<le> n div 10" using div_le_mono [of 1000 n 10] assms(1) by simp
  have n2: "10 \<le> n div 100" using div_le_mono [of 1000 n 100] assms(1) by simp
  have n3: "n div 1000 < 10" using assms(2) by (intro less_mult_imp_div_less) simp
  have e: "n div 10 div 10 = n div 100" "n div 100 div 10 = n div 1000"
    by (simp_all add: div_mult2_eq [symmetric])
  have a: "str_nat n = str_nat (n div 10) @ [digit_char n]"
    using assms by (simp add: str_nat.simps [of n])
  have b: "str_nat (n div 10) = str_nat (n div 100) @ [digit_char (n div 10)]"
    using n1 by (simp add: str_nat.simps [of "n div 10"] e)
  have c: "str_nat (n div 100) = str_nat (n div 1000) @ [digit_char (n div 100)]"
    using n2 by (simp add: str_nat.simps [of "n div 100"] e)
  have d: "str_nat (n div 1000) = [digit_char (n div 1000)]"
    using n3 by (simp add: str_nat.simps [of "n div 1000"])
  show ?thesis by (simp add: a b c d)
qed

lemma py_int_two_digits:
  assumes "is_digit a" "is_digit b"
  shows "py_int [a, b] = Inr (10 * digit_val a + digit_val b)"
proof -
  have "py_strip [a, b] = [a, b]"
    using assms by (simp add: py_strip_def digit_not_space)
  moreover have "a \<noteq> CHR ''-''" "a \<noteq> CHR ''+''"
    using assms(1) by (auto simp: is_digit_def)
  ultimately show ?thesis
    using assms by (simp add: py_int_def startswith_def)
qed

lemma mod10_split: "d2 < 10 \<Longrightarrow> (10 * k + d2) mod 10 = (d2::nat)"
  by simp

lemma digit_char_shift: "digit_char (10 * k + d) = digit_char d"
  by (simp add: digit_char_def)

lemma year_2000:
  assumes "d1 < 10" "d2 < 10"
  shows "py_str (2000 + (10 * int d1 + int d2)) = [CHR ''2'', CHR ''0'', digit_char d1, digit_char d2]"
proof -
  let ?n = "2000 + (10 * d1 + d2)"
  have n: "nat (2000 + (10 * int d1 + int d2)) = ?n" by simp
  have r: "1000 \<le> ?n" "?n < 10000" using assms by simp_all
  have q: "?n div 1000 = 2" "?n div 100 = 20" "?n div 10 = 200 + d1"
    using assms by simp_all
  have e: "?n = 10 * (200 + d1) + d2" "200 + d1 = 10 * 20 + d1" by simp_all
  have c: "digit_char ?n = digit_char d2" "digit_char (200 + d1) = digit_char d1"
    by (subst e, rule digit_char_shift)+
  have k: "digit_char 2 = CHR ''2''" "digit_char 20 = CHR ''0''"
    by (simp_all add: digit_char_def)
  have "\<not> 2000 + (10 * int d1 + int d2) < 0" by simp
  then show ?thesis
    unfolding py_str_def n str_nat_four [OF r] q c k by simp
qed

lemma year_1900:
  assumes "d1 < 10" "d2 < 10"
  shows "py_str (1900 + (10 * int d1 + int d2)) = [CHR ''1'', CHR ''9'', digit_char d1, digit_char d2]"
proof -
  let ?n = "1900 + (10 * d1 + d2)"
  have n: "nat (1900 + (10 * int d1 + int d2)) = ?n" by simp
  have r: "1000 \<le> ?n" "?n < 10000" using assms by simp_all
  have q: "?n div 1000 = 1" "?n div 100 = 19" "?n div 10 = 190 + d1"
    using assms by simp_all
  have e: "?n = 10 * (190 + d1) + d2" "190 + d1 = 10 * 19 + d1" by simp_all
  have c: "digit_char ?n = digit_char d2" "digit_char (190 + d1) = digit_char d1"
    by (subst e, rule digit_char_shift)+
  have k: "digit_char 1 = CHR ''1''" "digit_char 19 = CHR ''9''"
    by (simp_all add: digit_char_def)
  have "\<not> 1900 + (10 * int d1 + int d2) < 0" by simp
  then show ?thesis
    unfolding py_str_def n str_nat_four [OF r] q c k by simp
qed

lemma parse_date_digits:
  assumes "length s = 6" "is_digit (s ! 0)" "is_digit (s ! 1)"
  shows "parse_date s =
    Inr ((if 10 * digit_val (s ! 0) + digit_val (s ! 1) \<le> 50 then ''20'' else ''19'')
         @ take 2 s @ ''-'' @ take 2 (drop 2 s) @ ''-'' @ drop 4 s)"
proof -
  from assms(1) obtain a b c d e f where s: "s = [a, b, c, d, e, f]"
    by (auto simp: length_Suc_conv eval_nat_numeral)
  from assms s have ab: "is_digit a" "is_digit b" by simp_all
  define d1 where "d1 = nat (digit_val a)"
  define d2 where "d2 = nat (digit_val b)"
  have d: "d1 < 10" "d2 < 10" "digit_val a = int d1" "digit_val b = int d2"
    "digit_char d1 = a" "digit_char d2 = b"
    using digit_val_range [OF ab(1)] digit_val_range [OF ab(2)]
      digit_char_val [OF ab(1)] digit_char_val [OF ab(2)]
    by (auto simp: d1_def d2_def)
  show ?thesis
    using year_2000 [OF d(1,2)] year_1900 [OF d(1,2)] d(3-6)
    by (simp add: s parse_date_def py_slice_def py_int_two_digits [OF ab] bind_def)
qed

text \<open>
  Claim C5. For a six-character date whose first two characters are digits (the two-digit
  year), the date decoder returns the ISO form \<open>YYYY-MM-DD\<close> with the century chosen by
  the pivot: a year up to 50 gives \<open>20xx\<close>, a year from 51 on gives \<open>19xx\<close>; month and
  day are copied. In particular the four dates of the specification decode as stated.
\<close>

theorem parse_date_century_pivot:
  "(\<forall>s. length s = 6 \<and> is_digit (s ! 0) \<and> is_digit (s ! 1) \<longrightarrow>
      parse_date s =
        Inr ((if 10 * digit_val (s ! 0) + digit_val (s ! 1) \<le> 50 then ''20'' else ''19'')
             @ take 2 s @ ''-'' @ take 2 (drop 2 s) @ ''-'' @ drop 4 s))
   \<and> parse_date ''091120'' = Inr ''2009-11-20''
   \<and> parse_date ''991231'' = Inr ''1999-12-31''
   \<and> parse_date ''500101'' = Inr ''2050-01-01''
   \<and> parse_date ''510101'' = Inr ''1951-01-01''"
proof -
  have "parse_date ''091120'' = Inr ''2009-11-20''"
    by (simp add: parse_date_digits is_digit_def digit_val_def)
  moreover have "parse_date ''991231'' = Inr ''1999-12-31''"
    by (simp add: parse_date_digits is_digit_def digit_val_def)
  moreover have "parse_date ''500101'' = Inr ''2050-01-01''"
    by (simp add: parse_date_digits is_digit_def digit_val_def)
  moreover have "parse_date ''510101'' = Inr ''1951-01-01''"
    by (simp add: parse_date_digits is_digit_def digit_val_def)
  ultimately show ?thesis
    using parse_date_digits by blast
qed

theorem parse_date_century_pivot_witness:
  "length ''240101'' = 6 \<and> is_digit (''240101'' ! 0) \<and> is_digit (''240101'' ! 1)
   \<and> parse_date ''240101'' = Inr ''2024-01-01''"
proof -
  have h: "length ''240101'' = 6 \<and> is_digit (''240101'' ! 0) \<and> is_digit (''240101'' ! 1)"
    by (simp add: is_digit_def)
  from parse_date_century_pivot have
    "length ''240101'' = 6 \<and> is_digit (''240101'' ! 0) \<and> is_digit (''240101'' ! 1) \<longrightarrow>
     parse_date ''240101'' =
       Inr ((if 10 * digit_val (''240101'' ! 0) + digit_val (''240101'' ! 1) \<le> 50
             then ''20'' else ''19'')
            @ take 2 ''240101'' @ ''-'' @ take 2 (drop 2 ''240101'') @ ''-'' @ drop 4 ''240101'')"
    by blast
  with h show ?thesis by (simp add: digit_val_def)
qed


section \<open>Steps, matches and spans\<close>

lemma bind_Inr [simp]: "bind (Inr x) f = f x"
  by (simp add: bind_def)

lemma bind_Inl [simp]: "bind (Inl e) f = Inl e"
  by (simp add: bind_def)

lemma bind_eq_Inr: "bind m f = Inr y \<longleftrightarrow> (\<exists>x. m = Inr x \<and> f x = Inr y)"
  by (cases m) simp_all

lemma map_of_update:
  "map_of (AList.update k v al) k' = (if k' = k then Some v else map_of al k')"
  by (simp add: update_conv')

lemma map_of_dict_update:
  "map_of (dict_update d other) = map_of d ++ map_of (rev other)"
  unfolding dict_update_def
proof (induction other arbitrary: d)
  case Nil
  show ?case by simp
next
  case (Cons x xs)
  obtain k v where x: "x = (k, v)" by (cases x)
  have "map_of (fold (\<lambda>(k, v). AList.update k v) (x # xs) d) =
        map_of (AList.update k v d) ++ map_of (rev xs)"
    by (simp add: x Cons.IH)
  also have "\<dots> = map_of d ++ map_of (rev (x # xs))"
    by (auto simp: x update_conv' fun_eq_iff map_add_def split: option.splits)
  finally show ?case .
qed

lemma sem_token:
  "sem (token_pattern tag) t g s' g' \<Longrightarrow>
   \<exists>w. t = '':'' @ tag @ '':'' @ w @ s' \<and> w \<noteq> [] \<and>
       list_all (\<lambda>c. \<not> is_space c \<and> c \<noteq> CHR '':'') w \<and> g' = g(''1'' \<mapsto> w)"
  by (auto simp: token_pattern_def plus_def)

lemma sem_colon:
  "sem (colon_pattern tag) t g s' g' \<Longrightarrow>
   \<exists>w. t = '':'' @ tag @ '':'' @ w @ s' \<and> w \<noteq> [] \<and>
       list_all (is_not CHR '':'') w \<and> g' = g(''1'' \<mapsto> w)"
  by (auto simp: colon_pattern_def plus_def)

lemma sem_brace:
  "sem (brace_pattern tag) t g s' g' \<Longrightarrow>
   \<exists>w. t = ''{'' @ tag @ '':'' @ w @ ''}'' @ s' \<and> w \<noteq> [] \<and>
       list_all (is_not CHR ''}'') w \<and> g' = g(''1'' \<mapsto> w)"
  by (auto simp: brace_pattern_def plus_def)

lemma sem_tag_delimiter:
  "sem tag_delimiter s g s1 g1 \<Longrightarrow> g1 = g"
  by (auto simp: tag_delimiter_def exactly_def opt_def)

lemma sem_span:
  assumes "sem (span_pattern tag) t g s' g'"
  shows "\<exists>w. t = '':'' @ tag @ '':'' @ w @ s' \<and> w \<noteq> [] \<and> g' = g(''1'' \<mapsto> w)"
proof -
  from assms obtain w where "t = '':'' @ tag @ '':'' @ w @ s'" "w \<noteq> []" "g' = g(''1'' \<mapsto> w)"
    by (auto simp: span_pattern_def span_tail_def lazy_plus_def Suc_le_eq
          dest: sem_tag_delimiter)
  then show ?thesis by blast
qed

lemma sem_59:
  assumes "sem pattern_59 t g s' g'"
  shows "\<exists>w. (t = '':59:'' @ w @ s' \<or> t = '':59A:'' @ w @ s') \<and> w \<noteq> [] \<and> g' = g(''1'' \<mapsto> w)"
proof -
  from assms obtain u w where u: "t = '':59'' @ u @ '':'' @ w @ s'"
    "list_all (\<lambda>c. c = CHR ''A'') u" "length u \<le> 1" "w \<noteq> []" "g' = g(''1'' \<mapsto> w)"
    by (auto simp: pattern_59_def span_tail_def lazy_plus_def opt_def within_def Suc_le_eq
          dest: sem_tag_delimiter)
  from u(2,3) have "u = [] \<or> u = ''A''" by (cases u) auto
  with u show ?thesis by auto
qed

lemma sem_32a:
  assumes "sem pattern_32a t g s' g'"
  shows "\<exists>d c a. t = '':32A:'' @ d @ c @ a @ s' \<and> length d = 6 \<and> list_all is_digit d \<and>
     length c = 3 \<and> list_all is_upper c \<and> a \<noteq> [] \<and>
     list_all (\<lambda>c. is_digit c \<or> c = CHR '','') a \<and>
     g' = g(''1'' \<mapsto> d, ''2'' \<mapsto> c, ''3'' \<mapsto> a)"
proof -
  from assms obtain d c a where "t = '':32A:'' @ d @ c @ a @ s'" "length d = 6"
    "list_all is_digit d" "length c = 3" "list_all is_upper c" "a \<noteq> []"
    "list_all (\<lambda>c. is_digit c \<or> c = CHR '','') a"
    "g' = g(''1'' \<mapsto> d, ''2'' \<mapsto> c, ''3'' \<mapsto> a)"
    by (auto simp: pattern_32a_def exactly_def plus_def within_def Suc_le_eq)
  then show ?thesis by blast
qed

lemma sem_amount:
  assumes "sem (amount_pattern tag) t g s' g'"
  shows "\<exists>c a. t = '':'' @ tag @ '':'' @ c @ a @ s' \<and>
     length c = 3 \<and> list_all is_upper c \<and> a \<noteq> [] \<and>
     list_all (\<lambda>c. is_digit c \<or> c = CHR '','') a \<and>
     g' = g(''1'' \<mapsto> c, ''2'' \<mapsto> a)"
proof -
  from assms obtain c a where "t = '':'' @ tag @ '':'' @ c @ a @ s'"
    "length c = 3" "list_all is_upper c" "a \<noteq> []"
    "list_all (\<lambda>c. is_digit c \<or> c = CHR '','') a"
    "g' = g(''1'' \<mapsto> c, ''2'' \<mapsto> a)"
    by (auto simp: amount_pattern_def exactly_def plus_def within_def Suc_le_eq)
  then show ?thesis by blast
qed

lemma sem_13c:
  assumes "sem pattern_13c t g s' g'"
  shows "\<exists>code time sign offset. t = '':13C:/'' @ code @ ''/'' @ time @ sign @ offset @ s' \<and>
     code \<noteq> [] \<and> list_all (is_not CHR ''/'') code \<and>
     length time = 4 \<and> list_all is_digit time \<and>
     (sign = ''+'' \<or> sign = ''-'') \<and>
     length offset = 4 \<and> list_all is_digit offset \<and>
     g' = g(''code'' \<mapsto> code, ''time'' \<mapsto> time, ''sign'' \<mapsto> sign, ''offset'' \<mapsto> offset)"
proof -
  from assms obtain code time sign offset where
    a: "t = '':13C:/'' @ code @ ''/'' @ time @ sign @ offset @ s'"
      "code \<noteq> []" "list_all (is_not CHR ''/'') code"
      "length time = 4" "list_all is_digit time"
      "sign \<noteq> []" "list_all (\<lambda>c. c = CHR ''+'' \<or> c = CHR ''-'') sign"
      "length offset = 4" "list_all is_digit offset"
      "g' = g(''code'' \<mapsto> code, ''time'' \<mapsto> time, ''sign'' \<mapsto> sign, ''offset'' \<mapsto> offset)"
      "length sign \<le> Suc 0"
    by (auto simp: pattern_13c_def exactly_def plus_def within_def Suc_le_eq)
  from a(6,7,11) have "sign = ''+'' \<or> sign = ''-''"
    by (cases sign) auto
  with a(1-5,8-10) show ?thesis by blast
qed

lemma search_token:
  assumes "re_search (token_pattern tag) text = Some m"
  shows "\<exists>pre w. text = pre @ '':'' @ tag @ '':'' @ w @ m_rest m \<and> w \<noteq> [] \<and>
           group m ''1'' = Some w"
proof -
  from re_search_sound [OF assms] obtain pre t where
    t: "text = pre @ t" "sem (token_pattern tag) t Map.empty (m_rest m) (m_groups m)" by blast
  from sem_token [OF t(2)] t(1) show ?thesis by (auto simp: group_def)
qed

lemma search_colon:
  assumes "re_search (colon_pattern tag) text = Some m"
  shows "\<exists>pre w. text = pre @ '':'' @ tag @ '':'' @ w @ m_rest m \<and> w \<noteq> [] \<and>
           group m ''1'' = Some w"
proof -
  from re_search_sound [OF assms] obtain pre t where
    t: "text = pre @ t" "sem (colon_pattern tag) t Map.empty (m_rest m) (m_groups m)" by blast
  from sem_colon [OF t(2)] t(1) show ?thesis by (auto simp: group_def)
qed

lemma search_span:
  assumes "re_search (span_pattern tag) text = Some m"
  shows "\<exists>pre w. text = pre @ '':'' @ tag @ '':'' @ w @ m_rest m \<and> w \<noteq> [] \<and>
           group m ''1'' = Some w"
proof -
  from re_search_sound [OF assms] obtain pre t where
    t: "text = pre @ t" "sem (span_pattern tag) t Map.empty (m_rest m) (m_groups m)" by blast
  from sem_span [OF t(2)] t(1) show ?thesis by (auto simp: group_def)
qed

lemma search_59:
  assumes "re_search pattern_59 text = Some m"
  shows "\<exists>w. w \<noteq> [] \<and> group m ''1'' = Some w"
proof -
  from re_search_sound [OF assms] obtain pre t where
    t: "text = pre @ t" "sem pattern_59 t Map.empty (m_rest m) (m_groups m)" by blast
  from sem_59 [OF t(2)] show ?thesis by (auto simp: group_def)
qed

lemma search_brace:
  assumes "re_search (brace_pattern tag) text = Some m"
  shows "\<exists>pre w. text = pre @ ''{'' @ tag @ '':'' @ w @ ''}'' @ m_rest m \<and> w \<noteq> [] \<and>
           list_all (is_not CHR ''}'') w \<and> group m ''1'' = Some w"
proof -
  from re_search_sound [OF assms] obtain pre t where
    t: "text = pre @ t" "sem (brace_pattern tag) t Map.empty (m_rest m) (m_groups m)" by blast
  from sem_brace [OF t(2)] t(1) show ?thesis by (auto simp: group_def)
qed

lemma search_32a:
  assumes "re_search pattern_32a text = Some m"
  shows "\<exists>d c a. length d = 6 \<and> list_all is_digit d \<and> group m ''1'' = Some d \<and>
           group m ''2'' = Some c \<and> group m ''3'' = Some a"
proof -
  from re_search_sound [OF assms] obtain pre t where
    t: "text = pre @ t" "sem pattern_32a t Map.empty (m_rest m) (m_groups m)" by blast
  from sem_32a [OF t(2)] show ?thesis by (auto simp: group_def)
qed

lemma search_amount:
  assumes "re_search (amount_pattern tag) text = Some m"
  shows "\<exists>c a. group m ''1'' = Some c \<and> group m ''2'' = Some a"
proof -
  from re_search_sound [OF assms] obtain pre t where
    t: "text = pre @ t" "sem (amount_pattern tag) t Map.empty (m_rest m) (m_groups m)" by blast
  from sem_amount [OF t(2)] show ?thesis by (auto simp: group_def)
qed

lemma step_ok_keeps: "step_ok K f \<Longrightarrow> k \<notin> K \<Longrightarrow> keeps k f"
  unfolding step_ok_def keeps_def by blast

lemma step_ok_total: "step_ok K f \<Longrightarrow> \<exists>a'. f a = Inr a'"
  unfolding step_ok_def by blast

lemma step_ok_update: "step_ok {key} (\<lambda>a. Inr (AList.update key v a))"
  unfolding step_ok_def by (simp add: map_of_update)

lemma step_ok_id: "step_ok K Inr"
  unfolding step_ok_def by simp

lemma step_ok_mono: "step_ok K f \<Longrightarrow> K \<subseteq> K' \<Longrightarrow> step_ok K' f"
  unfolding step_ok_def by blast

lemma run_steps_append: "run_steps (fs @ gs) a = bind (run_steps fs a) (run_steps gs)"
  by (induction fs arbitrary: a) (simp_all add: bind_def split: sum.splits)

lemma run_steps_keeps:
  "list_all (keeps k) fs \<Longrightarrow> \<exists>a'. run_steps fs a = Inr a' \<and> map_of a' k = map_of a k"
proof (induction fs arbitrary: a)
  case Nil
  show ?case by simp
next
  case (Cons f fs)
  from Cons.prems obtain b where b: "f a = Inr b" "map_of b k = map_of a k"
    unfolding keeps_def by auto
  from Cons.prems have "list_all (keeps k) fs" by simp
  from Cons.IH [OF this, of b] b show ?case by auto
qed

lemma run_steps_focus:
  assumes "list_all (keeps k) pre" "list_all (keeps k) post" "step_ok K f"
  shows "\<exists>b b' a'. run_steps pre a = Inr b \<and> map_of b k = map_of a k \<and> f b = Inr b' \<and>
           run_steps (pre @ f # post) a = Inr a' \<and> map_of a' k = map_of b' k"
proof -
  from run_steps_keeps [OF assms(1), of a] obtain b where
    b: "run_steps pre a = Inr b" "map_of b k = map_of a k" by blast
  from step_ok_total [OF assms(3), of b] obtain b' where b': "f b = Inr b'" by blast
  from run_steps_keeps [OF assms(2), of b'] obtain a' where
    a': "run_steps post b' = Inr a'" "map_of a' k = map_of b' k" by blast
  from b b' a' show ?thesis by (simp add: run_steps_append)
qed

lemma py_split_nonempty: "py_split sep ms s \<noteq> []"
  by (induction s arbitrary: ms) (auto split: list.splits)

lemma py_index_0: "xs \<noteq> [] \<Longrightarrow> py_index xs 0 = Inr (hd xs)"
  by (cases xs) (simp_all add: py_index_def)

lemma parse_field_50f_total: "\<exists>d. parse_field_50f v = Inr d"
  using py_split_nonempty [of newline None "py_strip v"]
  by (simp add: parse_field_50f_def Let_def py_index_0)

lemma party_data_total:
  assumes "\<And>ls. ls \<noteq> [] \<Longrightarrow> \<exists>w. whole v ls = Inr w"
  shows "\<exists>d. party_data acc_key name_key whole v = Inr d"
proof -
  let ?lines = "py_split newline (Some 1) (py_strip v)"
  have ne: "?lines \<noteq> []" by (rule py_split_nonempty)
  from assms [OF ne] obtain w where w: "whole v ?lines = Inr w" by blast
  show ?thesis
    using ne w by (simp add: party_data_def Let_def py_index_0 py_index_def)
qed

lemma field_token_ok: "step_ok {key} (field_token tag key sub text)"
proof (cases "re_search (token_pattern tag) text")
  case None
  then have "field_token tag key sub text = Inr"
    by (simp add: field_token_def fun_eq_iff)
  then show ?thesis by (simp add: step_ok_id)
next
  case (Some m)
  from search_token [OF Some] obtain w where "group m ''1'' = Some w" by blast
  with Some have "field_token tag key sub text =
      (\<lambda>a. Inr (AList.update key (JObj [(sub, JStr (py_strip w))]) a))"
    by (simp add: field_token_def need_def fun_eq_iff)
  then show ?thesis by (simp add: step_ok_update)
qed

lemma field_colon_ok: "step_ok {key} (field_colon tag key sub text)"
proof (cases "re_search (colon_pattern tag) text")
  case None
  then have "field_colon tag key sub text = Inr"
    by (simp add: field_colon_def fun_eq_iff)
  then show ?thesis by (simp add: step_ok_id)
next
  case (Some m)
  from search_colon [OF Some] obtain w where "group m ''1'' = Some w" by blast
  with Some have "field_colon tag key sub text =
      (\<lambda>a. Inr (AList.update key (JObj [(sub, JStr (py_strip w))]) a))"
    by (simp add: field_colon_def need_def fun_eq_iff)
  then show ?thesis by (simp add: step_ok_update)
qed

lemma field_span_ok: "step_ok {key} (field_span tag key sub text)"
proof (cases "re_search (span_pattern tag) text")
  case None
  then have "field_span tag key sub text = Inr"
    by (simp add: field_span_def fun_eq_iff)
  then show ?thesis by (simp add: step_ok_id)
next
  case (Some m)
  from search_span [OF Some] obtain w where "group m ''1'' = Some w" by blast
  with Some have "field_span tag key sub text =
      (\<lambda>a. Inr (AList.update key (JObj [(sub, JStr (py_strip w))]) a))"
    by (simp add: field_span_def need_def fun_eq_iff)
  then show ?thesis by (simp add: step_ok_update)
qed

lemma field_32a_ok: "step_ok {''F32A''} (field_32a text)"
proof (cases "re_search pattern_32a text")
  case None
  then have "field_32a text = Inr"
    by (simp add: field_32a_def fun_eq_iff)
  then show ?thesis by (simp add: step_ok_id)
next
  case (Some m)
  from search_32a [OF Some] obtain d c amt where g: "length d = 6" "list_all is_digit d"
    "group m ''1'' = Some d" "group m ''2'' = Some c" "group m ''3'' = Some amt" by blast
  from g(1,2) have "is_digit (d ! 0)" "is_digit (d ! 1)"
    by (simp_all add: list_all_length)
  from parse_date_digits [OF g(1) this] obtain iso where "parse_date d = Inr iso" by blast
  with Some g have "field_32a text = (\<lambda>a. Inr (AList.update ''F32A''
      (JObj [(''F32A_Date'', JStr iso), (''F32A_Curr'', jopt (Some c)),
             (''F32A_Amount'', JStr (parse_amount amt))]) a))"
    by (simp add: field_32a_def need_def fun_eq_iff)
  then show ?thesis by (simp add: step_ok_update)
qed

lemma field_33b_ok: "step_ok {''F33B''} (field_33b text)"
proof (cases "re_search (amount_pattern ''33B'') text")
  case None
  then have "field_33b text = Inr"
    by (simp add: field_33b_def fun_eq_iff)
  then show ?thesis by (simp add: step_ok_id)
next
  case (Some m)
  from search_amount [OF Some] obtain c amt where
    "group m ''1'' = Some c" "group m ''2'' = Some amt" by blast
  with Some have "field_33b text = (\<lambda>a. Inr (AList.update ''F33B''
      (JObj [(''F33B_Curr'', jopt (Some c)), (''F33B_Amount'', JStr (parse_amount amt))]) a))"
    by (simp add: field_33b_def need_def fun_eq_iff)
  then show ?thesis by (simp add: step_ok_update)
qed

lemma field_50f_ok: "step_ok {''F50F''} (field_50f text)"
proof (cases "re_search (span_pattern ''50F'') text")
  case None
  then have "field_50f text = Inr"
    by (simp add: field_50f_def fun_eq_iff)
  then show ?thesis by (simp add: step_ok_id)
next
  case (Some m)
  from search_span [OF Some] obtain w where w: "group m ''1'' = Some w" by blast
  from parse_field_50f_total obtain d where "parse_field_50f w = Inr d" by blast
  with Some w have "field_50f text = (\<lambda>a. Inr (AList.update ''F50F'' (JObj d) a))"
    by (simp add: field_50f_def need_def fun_eq_iff)
  then show ?thesis by (simp add: step_ok_update)
qed

lemma field_50k_ok: "step_ok {''F50K''} (field_50k text)"
proof (cases "\<not> py_contains '':50F:'' text \<and> re_search (span_pattern ''50K'') text \<noteq> None")
  case False
  then have "field_50k text = Inr"
    by (auto simp: field_50k_def fun_eq_iff)
  then show ?thesis by (simp add: step_ok_id)
next
  case True
  then obtain m where m: "re_search (span_pattern ''50K'') text = Some m" by auto
  from search_span [OF m] obtain w where w: "group m ''1'' = Some w" by blast
  with True m have "field_50k text = (\<lambda>a. Inr (AList.update ''F50K''
      (JObj [(''F50K_OrderingCustomer'', JStr (py_strip w))]) a))"
    by (simp add: field_50k_def need_def fun_eq_iff)
  then show ?thesis by (simp add: step_ok_update)
qed

lemma field_party_ok:
  assumes "\<And>w ls. ls \<noteq> [] \<Longrightarrow> \<exists>x. whole w ls = Inr x"
      and "\<And>m. re_search p text = Some m \<Longrightarrow> \<exists>w. group m ''1'' = Some w"
  shows "step_ok {key}
    (\<lambda>a. case re_search p text of
            Some m \<Rightarrow> need (group m ''1'') (\<lambda>v.
              bind (party_data acc_key name_key whole v) (\<lambda>field_data.
                Inr (AList.update key (JObj field_data) a)))
          | None \<Rightarrow> Inr a)"
proof (cases "re_search p text")
  case None
  then show ?thesis by (simp add: step_ok_id)
next
  case (Some m)
  from assms(2) [OF Some] obtain w where w: "group m ''1'' = Some w" by blast
  from party_data_total [of whole w acc_key name_key] assms(1)
  obtain d where "party_data acc_key name_key whole w = Inr d" by blast
  with Some w show ?thesis by (simp add: need_def step_ok_update)
qed

lemma field_52d_ok: "step_ok {''F52D''} (field_52d text)"
proof -
  have "step_ok {''F52D''}
    (\<lambda>a. case re_search (span_pattern ''52D'') text of
            Some m \<Rightarrow> need (group m ''1'') (\<lambda>v.
              bind (party_data ''F52D_AccountId'' ''F52D_NameAddr''
                      (\<lambda>v lines. Inr (py_strip v)) v) (\<lambda>field_data.
                Inr (AList.update ''F52D'' (JObj field_data) a)))
          | None \<Rightarrow> Inr a)"
    by (rule field_party_ok) (use search_span in blast)+
  then show ?thesis by (simp add: field_52d_def [abs_def])
qed

lemma field_54a_ok: "step_ok {''F54A''} (field_54a text)"
proof -
  have "step_ok {''F54A''}
    (\<lambda>a. case re_search (span_pattern ''54A'') text of
            Some m \<Rightarrow> need (group m ''1'') (\<lambda>v.
              bind (party_data ''F54A_AccountId'' ''F54A_BIC''
                      (\<lambda>v lines. py_index lines 0) v) (\<lambda>field_data.
                Inr (AList.update ''F54A'' (JObj field_data) a)))
          | None \<Rightarrow> Inr a)"
    by (rule field_party_ok) (use search_span py_index_0 in blast)+
  then show ?thesis by (simp add: field_54a_def [abs_def])
qed

lemma field_59_ok: "step_ok {''F59''} (field_59 text)"
proof -
  have "step_ok {''F59''}
    (\<lambda>a. case re_search pattern_59 text of
            Some m \<Rightarrow> need (group m ''1'') (\<lambda>v.
              bind (party_data ''F59_ACC_ID_Party'' ''F59_Name_addr_Party''
                      (\<lambda>v lines. Inr (py_strip v)) v) (\<lambda>field_data.
                Inr (AList.update ''F59'' (JObj field_data) a)))
          | None \<Rightarrow> Inr a)"
    by (rule field_party_ok) (use search_59 in blast)+
  then show ?thesis by (simp add: field_59_def [abs_def])
qed

lemma field_suffixes_ok:
  "step_ok ((\<lambda>suffix. ''F'' @ num @ suffix) ` set suffixes)
     (field_suffixes num name suffixes text)"
proof (induction suffixes)
  case Nil
  have "field_suffixes num name [] text = Inr" by (simp add: fun_eq_iff)
  then show ?case by (simp add: step_ok_id)
next
  case (Cons suffix rest)
  show ?case
  proof (cases "re_search (span_pattern (num @ suffix)) text")
    case None
    then have "field_suffixes num name (suffix # rest) text = field_suffixes num name rest text"
      by (simp add: fun_eq_iff)
    with Cons.IH show ?thesis by (auto elim: step_ok_mono)
  next
    case (Some m)
    from search_span [OF Some] obtain w where "group m ''1'' = Some w" by blast
    with Some have "field_suffixes num name (suffix # rest) text =
      (\<lambda>a. Inr (AList.update (''F'' @ num @ suffix)
             (JObj [(''F'' @ num @ suffix @ name, JStr (py_strip w))]) a))"
      by (simp add: need_def fun_eq_iff)
    then show ?thesis
      using step_ok_mono [OF step_ok_update] by simp
  qed
qed

lemma sem_suffix: "sem r s g s' g' \<Longrightarrow> \<exists>w. s = w @ s'"
proof (induction r arbitrary: s g s' g')
  case (Seq a b)
  from Seq.prems obtain s1 g1 where "sem a s g s1 g1" "sem b s1 g1 s' g'" by auto
  with Seq.IH obtain w1 w2 where "s = w1 @ s1" "s1 = w2 @ s'" by blast
  then have "s = (w1 @ w2) @ s'" by simp
  then show ?case by blast
next
  case (Alt a b)
  then show ?case by auto
next
  case (Group n r)
  then show ?case by auto
qed auto

lemma search_from_located:
  assumes "search_from r i s = Some m"
  shows "\<exists>pre w. s = pre @ w @ m_rest m \<and> m_start m = i + length pre \<and>
           sem r (w @ m_rest m) Map.empty (m_rest m) (m_groups m)"
proof -
  from search_from_sound [OF assms] obtain pre t where
    t: "s = pre @ t" "m_start m = i + length pre" "sem r t Map.empty (m_rest m) (m_groups m)"
    by blast
  from sem_suffix [OF t(3)] obtain w where "t = w @ m_rest m" by blast
  with t show ?thesis by blast
qed

lemma finditer_from_None:
  "search_from r i s = None \<Longrightarrow> finditer_from r i s = []"
  by (subst finditer_from.simps) simp

lemma finditer_from_last:
  "search_from r i s = Some m0 \<Longrightarrow> \<not> length (m_rest m0) < length s \<Longrightarrow>
   finditer_from r i s = [m0]"
  by (subst finditer_from.simps) simp

lemma finditer_from_next:
  "search_from r i s = Some m0 \<Longrightarrow> length (m_rest m0) < length s \<Longrightarrow>
   finditer_from r i s =
     m0 # finditer_from r (i + (length s - length (m_rest m0))) (m_rest m0)"
  by (subst finditer_from.simps) simp

lemma finditer_from_sem:
  "m \<in> set (finditer_from r i s) \<Longrightarrow>
   \<exists>t. sem r t Map.empty (m_rest m) (m_groups m)"
proof (induction r i s rule: finditer_from.induct)
  case (1 r i s)
  show ?case
  proof (cases "search_from r i s")
    case None
    with "1.prems" show ?thesis by (simp only: finditer_from_None) simp
  next
    case (Some m0)
    show ?thesis
    proof (cases "length (m_rest m0) < length s")
      case False
      from "1.prems" have "m = m0"
        by (simp only: finditer_from_last [OF Some False]) simp
      with search_from_sound [OF Some] show ?thesis by blast
    next
      case True
      from "1.prems" have
        "m = m0 \<or> m \<in> set (finditer_from r (i + (length s - length (m_rest m0))) (m_rest m0))"
        by (simp only: finditer_from_next [OF Some True]) simp
      with search_from_sound [OF Some] "1.IH" [OF Some True] show ?thesis by blast
    qed
  qed
qed

lemma finditer_from_lower:
  "m \<in> set (finditer_from r i s) \<Longrightarrow> i \<le> m_start m"
proof (induction r i s rule: finditer_from.induct)
  case (1 r i s)
  show ?case
  proof (cases "search_from r i s")
    case None
    with "1.prems" show ?thesis by (simp only: finditer_from_None) simp
  next
    case (Some m0)
    from search_from_sound [OF Some] have m0: "i \<le> m_start m0" by auto
    show ?thesis
    proof (cases "length (m_rest m0) < length s")
      case False
      from "1.prems" have "m = m0"
        by (simp only: finditer_from_last [OF Some False]) simp
      with m0 show ?thesis by simp
    next
      case True
      from "1.prems" have
        "m = m0 \<or> m \<in> set (finditer_from r (i + (length s - length (m_rest m0))) (m_rest m0))"
        by (simp only: finditer_from_next [OF Some True]) simp
      then show ?thesis
      proof
        assume "m = m0"
        with m0 show ?thesis by simp
      next
        assume "m \<in> set (finditer_from r (i + (length s - length (m_rest m0))) (m_rest m0))"
        from "1.IH" [OF Some True this] show ?thesis by simp
      qed
    qed
  qed
qed

lemma finditer_from_sorted:
  "consuming r \<Longrightarrow> sorted_wrt (<) (map m_start (finditer_from r i s))"
proof (induction r i s rule: finditer_from.induct)
  case (1 r i s)
  show ?case
  proof (cases "search_from r i s")
    case None
    then show ?thesis by (simp only: finditer_from_None) simp
  next
    case (Some m0)
    from search_from_located [OF Some] obtain pre w where
      l: "s = pre @ w @ m_rest m0" "m_start m0 = i + length pre"
         "sem r (w @ m_rest m0) Map.empty (m_rest m0) (m_groups m0)" by blast
    show ?thesis
    proof (cases "length (m_rest m0) < length s")
      case False
      show ?thesis by (simp only: finditer_from_last [OF Some False]) simp
    next
      case True
      let ?j = "i + (length s - length (m_rest m0))"
      have "length (m_rest m0) < length (w @ m_rest m0)"
        by (rule "1.prems" [unfolded consuming_def, rule_format, OF l(3)])
      then have "w \<noteq> []" by simp
      with l have j: "m_start m0 < ?j" by simp
      have "\<forall>m \<in> set (finditer_from r ?j (m_rest m0)). m_start m0 < m_start m"
        using finditer_from_lower j by fastforce
      moreover have "sorted_wrt (<) (map m_start (finditer_from r ?j (m_rest m0)))"
        by (rule "1.IH" [OF Some True "1.prems"])
      ultimately show ?thesis
        by (simp only: finditer_from_next [OF Some True]) simp
    qed
  qed
qed

lemma consuming_13c: "consuming pattern_13c"
  unfolding consuming_def by (auto dest!: sem_13c)

lemma consuming_amount: "consuming (amount_pattern tag)"
  unfolding consuming_def by (auto dest!: sem_amount)

lemma collect_map:
  "(\<And>x. x \<in> set xs \<Longrightarrow> \<exists>y. f x = Inr y) \<Longrightarrow>
   \<exists>ys. collect f xs = Inr ys \<and> map Inr ys = map f xs"
proof (induction xs)
  case Nil
  show ?case by simp
next
  case (Cons x xs)
  from Cons.prems obtain y where y: "f x = Inr y" by auto
  from Cons obtain ys where "collect f xs = Inr ys" "map Inr ys = map f xs" by auto
  with y show ?case by simp
qed

lemma time_indication_total:
  assumes "m \<in> set (re_finditer pattern_13c text)"
  shows "\<exists>y. time_indication m = Inr y"
proof -
  from assms finditer_from_sem obtain t where
    "sem pattern_13c t Map.empty (m_rest m) (m_groups m)"
    unfolding re_finditer_def by blast
  from sem_13c [OF this] show ?thesis
    by (auto simp: time_indication_def need_def group_def)
qed

lemma charge_total:
  assumes "m \<in> set (re_finditer (amount_pattern tag) text)"
  shows "\<exists>y. charge m = Inr y"
proof -
  from assms finditer_from_sem obtain t where
    "sem (amount_pattern tag) t Map.empty (m_rest m) (m_groups m)"
    unfolding re_finditer_def by blast
  from sem_amount [OF this] show ?thesis
    by (auto simp: charge_def need_def group_def)
qed

lemma field_13c_eq:
  "\<exists>tis. parse_field_13c text = Inr tis \<and>
         map Inr tis = map time_indication (re_finditer pattern_13c text) \<and>
         field_13c text = (\<lambda>a. Inr (if tis = [] then a
            else if length tis = 1 then AList.update ''A1'' (JObj [(''F13C'', tis ! 0)]) a
            else AList.update ''A1'' (JObj [(''F13C'', JList tis)]) a))"
proof -
  from collect_map [of "re_finditer pattern_13c text" time_indication] time_indication_total
  obtain tis where t: "collect time_indication (re_finditer pattern_13c text) = Inr tis"
    "map Inr tis = map time_indication (re_finditer pattern_13c text)" by blast
  then show ?thesis
    by (auto simp: field_13c_def parse_field_13c_def py_index_def fun_eq_iff)
qed

lemma field_71f_eq:
  "\<exists>charges. collect charge (re_finditer (amount_pattern ''71F'') text) = Inr charges \<and>
         map Inr charges = map charge (re_finditer (amount_pattern ''71F'') text) \<and>
         field_71f text = (\<lambda>a. Inr (if charges = [] then a
            else if length charges = 1
              then AList.update ''A3'' (JObj [(''F71F'', charges ! 0)]) a
            else AList.update ''A3'' (JObj [(''F71F'', JList charges)]) a))"
proof -
  from collect_map [of "re_finditer (amount_pattern ''71F'') text" charge] charge_total
  obtain cs where t: "collect charge (re_finditer (amount_pattern ''71F'') text) = Inr cs"
    "map Inr cs = map charge (re_finditer (amount_pattern ''71F'') text)" by blast
  then show ?thesis
    by (auto simp: field_71f_def py_index_def fun_eq_iff)
qed

lemma field_13c_ok: "step_ok {''A1''} (field_13c text)"
proof -
  from field_13c_eq [of "text"] obtain tis where "field_13c text =
     (\<lambda>a. Inr (if tis = [] then a
            else if length tis = 1 then AList.update ''A1'' (JObj [(''F13C'', tis ! 0)]) a
            else AList.update ''A1'' (JObj [(''F13C'', JList tis)]) a))" by blast
  then show ?thesis by (simp add: step_ok_def map_of_update)
qed

lemma field_71f_ok: "step_ok {''A3''} (field_71f text)"
proof -
  from field_71f_eq [of "text"] obtain cs where "field_71f text =
     (\<lambda>a. Inr (if cs = [] then a
            else if length cs = 1 then AList.update ''A3'' (JObj [(''F71F'', cs ! 0)]) a
            else AList.update ''A3'' (JObj [(''F71F'', JList cs)]) a))" by blast
  then show ?thesis by (simp add: step_ok_def map_of_update)
qed

lemma upper_not_colon: "is_upper c \<Longrightarrow> c \<noteq> CHR '':''"
  by (auto simp: is_upper_def)

lemma tag_delimiter_match:
  "rmatch tag_delimiter s g (\<lambda>s' g'. Some (g', s')) \<noteq> None \<longleftrightarrow> delim_at s"
proof (cases s)
  case Nil
  then show ?thesis by (simp add: tag_delimiter_def)
next
  case s1: (Cons c0 t1)
  show ?thesis
  proof (cases t1)
    case Nil
    with s1 show ?thesis by (simp add: tag_delimiter_def exactly_def dec_def)
  next
    case s2: (Cons d1 t2)
    show ?thesis
    proof (cases t2)
      case Nil
      with s1 s2 show ?thesis by (simp add: tag_delimiter_def exactly_def dec_def)
    next
      case s3: (Cons d2 t3)
      show ?thesis
      proof (cases t3)
        case Nil
        with s1 s2 s3 show ?thesis
          by (simp add: tag_delimiter_def exactly_def opt_def dec_def)
      next
        case s4: (Cons c3 t4)
        show ?thesis
        proof (cases t4)
          case Nil
          with s1 s2 s3 s4 show ?thesis
            by (auto simp: tag_delimiter_def exactly_def opt_def dec_def upper_not_colon
                split: option.splits)
        next
          case (Cons c4 t5)
          with s1 s2 s3 s4 show ?thesis
            by (auto simp: tag_delimiter_def exactly_def opt_def dec_def upper_not_colon
                split: option.splits)
        qed
      qed
    qed
  qed
qed

lemma look_stop:
  "rmatch (Look (Alt tag_delimiter Eos)) s g k = (if stop_at s then k s g else None)"
proof (cases "rmatch tag_delimiter s g (\<lambda>s' g'. Some (g', s'))")
  case None
  with tag_delimiter_match [of s g] have "\<not> delim_at s" by simp
  with None show ?thesis by (simp add: stop_at_def)
next
  case (Some r)
  obtain g1 s1 where r: "r = (g1, s1)" by (cases r)
  from rmatch_sound [OF Some] r have "sem tag_delimiter s g s1 g1" by auto
  from sem_tag_delimiter [OF this] have g1: "g1 = g" .
  from Some tag_delimiter_match [of s g] have "delim_at s" by simp
  with Some r g1 show ?thesis by (simp add: stop_at_def)
qed

lemma upto_stop_split: "upto_stop s = (w, r) \<Longrightarrow> s = w @ r"
  by (induction s arbitrary: w r) (auto split: if_splits prod.splits)

lemma upto_stop_stop: "upto_stop s = (w, r) \<Longrightarrow> stop_at r"
  by (induction s arbitrary: w r) (auto simp: stop_at_def split: if_splits prod.splits)

lemma upto_stop_first:
  "upto_stop s = (w, r) \<Longrightarrow> i < length w \<Longrightarrow> \<not> stop_at (drop i s)"
proof (induction s arbitrary: w r i)
  case Nil
  then show ?case by simp
next
  case (Cons c cs)
  from Cons.prems have ns: "\<not> stop_at (c # cs)" by (auto split: if_splits)
  with Cons.prems obtain w' where w': "upto_stop cs = (w', r)" "w = c # w'"
    by (auto split: prod.splits)
  show ?case
  proof (cases i)
    case 0
    with ns show ?thesis by simp
  next
    case (Suc j)
    with Cons.prems w' have "j < length w'" by simp
    from Cons.IH [OF w'(1) this] Suc show ?thesis by simp
  qed
qed

lemma lazy_upto_stop:
  "lazy dot_all 0 None s (\<lambda>s'. if stop_at s' then Some (f s') else None) =
   Some (f (snd (upto_stop s)))"
  by (induction s) (auto simp: dot_all_def dec_def stop_at_def split: prod.splits)

lemma span_tail_match:
  "rmatch (cat span_tail) s g (\<lambda>s' g'. Some (g', s')) =
     (case s of [] \<Rightarrow> None
      | c # cs \<Rightarrow> (case upto_stop cs of (w, r) \<Rightarrow> Some (g(''1'' \<mapsto> c # w), r)))"
proof -
  let ?k = "\<lambda>s'. if stop_at s'
                 then Some (g(''1'' \<mapsto> take (length s - length s') s), s') else None"
  have l: "rmatch (cat span_tail) s g (\<lambda>s' g'. Some (g', s')) = lazy dot_all 1 None s ?k"
    by (simp add: span_tail_def lazy_plus_def look_stop del: rmatch.simps(6))
  show ?thesis
  proof (cases s)
    case Nil
    with l show ?thesis by simp
  next
    case (Cons c cs)
    obtain w r where wr: "upto_stop cs = (w, r)" by (cases "upto_stop cs")
    from upto_stop_split [OF wr] have cs: "cs = w @ r" .
    have a: "lazy dot_all 1 None s ?k = lazy dot_all 0 None cs ?k"
      by (simp add: Cons dot_all_def dec_def)
    have b: "lazy dot_all 0 None cs ?k = Some (g(''1'' \<mapsto> take (length s - length r) s), r)"
      using lazy_upto_stop [of cs "\<lambda>s'. (g(''1'' \<mapsto> take (length s - length s') s), s')"] wr
      by simp
    have t: "take (length s - length r) s = c # w"
      by (simp add: Cons cs)
    show ?thesis unfolding l a b t by (simp add: Cons wr)
  qed
qed

lemma strip_prefix_None: "strip_prefix w s = None \<longleftrightarrow> \<not> (\<exists>s'. s = w @ s')"
  using strip_prefix_Some [of w s] by (cases "strip_prefix w s") auto

lemma cat_cons: "rs \<noteq> [] \<Longrightarrow> cat (r # rs) = Seq r (cat rs)"
  by (cases rs) simp_all

lemma span_tail_nonempty: "span_tail \<noteq> []"
  by (simp add: span_tail_def)

lemma span_match:
  "re_match (span_pattern tag) t =
     (case strip_prefix ('':'' @ tag @ '':'') t of
        None \<Rightarrow> None
      | Some [] \<Rightarrow> None
      | Some (c # cs) \<Rightarrow>
          (case upto_stop cs of (w, r) \<Rightarrow>
             Some \<lparr>m_start = 0, m_groups = [''1'' \<mapsto> c # w], m_rest = r\<rparr>))"
proof -
  have "rmatch (span_pattern tag) t Map.empty (\<lambda>s' g'. Some (g', s')) =
        (case strip_prefix ('':'' @ tag @ '':'') t of None \<Rightarrow> None
         | Some s \<Rightarrow> rmatch (cat span_tail) s Map.empty (\<lambda>s' g'. Some (g', s')))"
    by (simp add: span_pattern_def cat_cons span_tail_nonempty)
  then show ?thesis
    unfolding re_match_def span_tail_match
    by (simp split: option.splits list.splits prod.splits)
qed

lemma search_from_first:
  "search_from r i s = Some m \<Longrightarrow>
   \<exists>pre t m0. s = pre @ t \<and> re_match r t = Some m0 \<and> m = m0\<lparr>m_start := i + length pre\<rparr> \<and>
     (\<forall>j < length pre. re_match r (drop j s) = None)"
proof (induction s arbitrary: i)
  case Nil
  then show ?case by auto
next
  case (Cons c cs)
  show ?case
  proof (cases "re_match r (c # cs)")
    case (Some m0)
    with Cons.prems have "m = m0\<lparr>m_start := i\<rparr>" by simp
    with Some show ?thesis
      by (intro exI [of _ "[]"] exI [of _ "c # cs"] exI [of _ m0]) simp
  next
    case None
    with Cons.prems have "search_from r (Suc i) cs = Some m" by simp
    from Cons.IH [OF this] obtain pre t m0 where
      p: "cs = pre @ t" "re_match r t = Some m0" "m = m0\<lparr>m_start := Suc i + length pre\<rparr>"
         "\<forall>j < length pre. re_match r (drop j cs) = None" by blast
    have "\<forall>j < length (c # pre). re_match r (drop j (c # cs)) = None"
    proof (intro allI impI)
      fix j assume "j < length (c # pre)"
      then show "re_match r (drop j (c # cs)) = None"
        using None p(4) by (cases j) auto
    qed
    with p show ?thesis
      by (intro exI [of _ "c # pre"] exI [of _ t] exI [of _ m0]) simp
  qed
qed

lemma search_from_None:
  "search_from r i s = None \<Longrightarrow> re_match r (drop j s) = None"
proof (induction s arbitrary: i j)
  case Nil
  then show ?case by (cases "re_match r []") auto
next
  case (Cons c cs)
  from Cons.prems have n: "re_match r (c # cs) = None" "search_from r (Suc i) cs = None"
    by (auto split: option.splits)
  show ?case
  proof (cases j)
    case 0
    with n show ?thesis by simp
  next
    case (Suc j')
    with Cons.IH [OF n(2), of j'] show ?thesis by simp
  qed
qed

section \<open>Steps of the text block\<close>

lemma keeps_token: "k \<noteq> key \<Longrightarrow> keeps k (field_token tag key sub text)"
  by (rule step_ok_keeps [OF field_token_ok]) simp

lemma keeps_colon: "k \<noteq> key \<Longrightarrow> keeps k (field_colon tag key sub text)"
  by (rule step_ok_keeps [OF field_colon_ok]) simp

lemma keeps_span: "k \<noteq> key \<Longrightarrow> keeps k (field_span tag key sub text)"
  by (rule step_ok_keeps [OF field_span_ok]) simp

lemma keeps_13c: "k \<noteq> ''A1'' \<Longrightarrow> keeps k (field_13c text)"
  by (rule step_ok_keeps [OF field_13c_ok]) simp

lemma keeps_32a: "k \<noteq> ''F32A'' \<Longrightarrow> keeps k (field_32a text)"
  by (rule step_ok_keeps [OF field_32a_ok]) simp

lemma keeps_33b: "k \<noteq> ''F33B'' \<Longrightarrow> keeps k (field_33b text)"
  by (rule step_ok_keeps [OF field_33b_ok]) simp

lemma keeps_50f: "k \<noteq> ''F50F'' \<Longrightarrow> keeps k (field_50f text)"
  by (rule step_ok_keeps [OF field_50f_ok]) simp

lemma keeps_50k: "k \<noteq> ''F50K'' \<Longrightarrow> keeps k (field_50k text)"
  by (rule step_ok_keeps [OF field_50k_ok]) simp

lemma keeps_52d: "k \<noteq> ''F52D'' \<Longrightarrow> keeps k (field_52d text)"
  by (rule step_ok_keeps [OF field_52d_ok]) simp

lemma keeps_54a: "k \<noteq> ''F54A'' \<Longrightarrow> keeps k (field_54a text)"
  by (rule step_ok_keeps [OF field_54a_ok]) simp

lemma keeps_59: "k \<noteq> ''F59'' \<Longrightarrow> keeps k (field_59 text)"
  by (rule step_ok_keeps [OF field_59_ok]) simp

lemma field_56_ok: "step_ok {''F56A'', ''F56C'', ''F56D''} (field_56 text)"
  using field_suffixes_ok [of "''56''" "[''A'', ''C'', ''D'']" "''_Intermediary''" "text"]
  by (simp add: field_56_def)

lemma field_57_ok: "step_ok {''F57A'', ''F57B'', ''F57C'', ''F57D''} (field_57 text)"
  using field_suffixes_ok [of "''57''" "[''A'', ''B'', ''C'', ''D'']"
          "''_AccountWithInstitution''" "text"]
  by (simp add: field_57_def)

lemma keeps_56: "k \<notin> {''F56A'', ''F56C'', ''F56D''} \<Longrightarrow> keeps k (field_56 text)"
  by (rule step_ok_keeps [OF field_56_ok])

lemma keeps_57: "k \<notin> {''F57A'', ''F57B'', ''F57C'', ''F57D''} \<Longrightarrow> keeps k (field_57 text)"
  by (rule step_ok_keeps [OF field_57_ok])

lemma keeps_71f: "k \<noteq> ''A3'' \<Longrightarrow> keeps k (field_71f text)"
  by (rule step_ok_keeps [OF field_71f_ok]) simp

lemmas keeps_field = keeps_token keeps_colon keeps_span keeps_13c keeps_32a keeps_33b
  keeps_50f keeps_50k keeps_52d keeps_54a keeps_59 keeps_56 keeps_57 keeps_71f

lemma keeps_total: "keeps k f \<Longrightarrow> \<exists>a'. f a = Inr a'"
  unfolding keeps_def by blast

lemma parse_text_block_total: "\<exists>a. parse_text_block text = Inr [(''A'', JObj a)]"
proof -
  have "list_all (keeps ''none'') (text_fields text)"
    by (simp add: text_fields_def keeps_field)
  from run_steps_keeps [OF this, of "[]"] show ?thesis
    by (auto simp: parse_text_block_def)
qed

lemma text_focus:
  assumes "text_fields text = pre @ f # post"
      and "list_all (keeps k) pre" "list_all (keeps k) post" "step_ok K f"
  shows "\<exists>b b' a. map_of b k = None \<and> f b = Inr b' \<and>
           parse_text_block text = Inr [(''A'', JObj a)] \<and> map_of a k = map_of b' k"
proof -
  from run_steps_focus [OF assms(2,3,4), of "[]"] obtain b b' a where
    "run_steps pre [] = Inr b" "map_of b k = map_of [] k" "f b = Inr b'"
    "run_steps (pre @ f # post) [] = Inr a" "map_of a k = map_of b' k" by blast
  then show ?thesis
    by (auto simp: parse_text_block_def assms(1))
qed

lemma run_steps_keeps_set:
  "Ks \<noteq> {} \<Longrightarrow> list_all (\<lambda>f. \<forall>k\<in>Ks. keeps k f) fs \<Longrightarrow>
   \<exists>a'. run_steps fs a = Inr a' \<and> (\<forall>k\<in>Ks. map_of a' k = map_of a k)"
proof (induction fs arbitrary: a)
  case Nil
  show ?case by simp
next
  case (Cons f fs)
  from Cons.prems(1) obtain k0 where "k0 \<in> Ks" by blast
  with Cons.prems(2) have "keeps k0 f" by simp
  then obtain b where b: "f a = Inr b" unfolding keeps_def by blast
  have kb: "\<forall>k\<in>Ks. map_of b k = map_of a k"
  proof
    fix k assume "k \<in> Ks"
    with Cons.prems(2) have "keeps k f" by simp
    then obtain b' where "f a = Inr b'" "map_of b' k = map_of a k"
      unfolding keeps_def by blast
    with b show "map_of b k = map_of a k" by simp
  qed
  from Cons.prems(2) have "list_all (\<lambda>f. \<forall>k\<in>Ks. keeps k f) fs" by simp
  from Cons.IH [OF Cons.prems(1) this, of b] b kb show ?case by auto
qed

lemma text_focus_set:
  assumes "text_fields text = pre @ f # post" and "Ks \<noteq> {}"
      and "list_all (\<lambda>f. \<forall>k\<in>Ks. keeps k f) pre"
      and "list_all (\<lambda>f. \<forall>k\<in>Ks. keeps k f) post"
      and "step_ok K f"
  shows "\<exists>b b' a. (\<forall>k\<in>Ks. map_of b k = None) \<and> f b = Inr b' \<and>
           parse_text_block text = Inr [(''A'', JObj a)] \<and>
           (\<forall>k\<in>Ks. map_of a k = map_of b' k)"
proof -
  from run_steps_keeps_set [OF assms(2,3), of "[]"] obtain b where
    b: "run_steps pre [] = Inr b" "\<forall>k\<in>Ks. map_of b k = None" by auto
  from step_ok_total [OF assms(5), of b] obtain b' where b': "f b = Inr b'" by blast
  from run_steps_keeps_set [OF assms(2,4), of b'] obtain a where
    a: "run_steps post b' = Inr a" "\<forall>k\<in>Ks. map_of a k = map_of b' k" by blast
  from b b' a have "parse_text_block text = Inr [(''A'', JObj a)]"
    by (simp add: parse_text_block_def assms(1) run_steps_append)
  with b b' a show ?thesis by blast
qed

lemma startswith_iff: "startswith s p \<longleftrightarrow> (\<exists>suf. s = p @ suf)"
  unfolding startswith_def
  by (metis append_eq_conv_conj append_take_drop_id)

lemma py_contains_iff: "py_contains sub s \<longleftrightarrow> (\<exists>pre suf. s = pre @ sub @ suf)"
proof (induction s)
  case Nil
  show ?case by auto
next
  case (Cons c cs)
  show ?case
  proof
    assume "py_contains sub (c # cs)"
    then consider "startswith (c # cs) sub" | "py_contains sub cs" by auto
    then show "\<exists>pre suf. c # cs = pre @ sub @ suf"
    proof cases
      case 1
      then obtain suf where "c # cs = sub @ suf" unfolding startswith_iff by blast
      then have "c # cs = [] @ sub @ suf" by simp
      then show ?thesis by blast
    next
      case 2
      with Cons.IH obtain pre suf where "cs = pre @ sub @ suf" by blast
      then have "c # cs = (c # pre) @ sub @ suf" by simp
      then show ?thesis by blast
    qed
  next
    assume "\<exists>pre suf. c # cs = pre @ sub @ suf"
    then obtain pre suf where e: "c # cs = pre @ sub @ suf" by blast
    show "py_contains sub (c # cs)"
    proof (cases pre)
      case Nil
      with e have "startswith (c # cs) sub" unfolding startswith_iff by auto
      then show ?thesis by simp
    next
      case (Cons x pre')
      with e have "cs = pre' @ sub @ suf" by simp
      with Cons.IH have "py_contains sub cs" by blast
      then show ?thesis by simp
    qed
  qed
qed

lemma text_fields_50k:
  "text_fields text =
     [field_token ''20'' ''F20'' ''F20_TRN'' text,
      field_13c text,
      field_token ''23B'' ''F23B'' ''F23B_BankOpCode'' text,
      field_colon ''23E'' ''F23E'' ''F23E_InstructionCode'' text,
      field_colon ''26T'' ''F26T'' ''F26T_TransType'' text,
      field_32a text,
      field_33b text,
      field_colon ''36'' ''F36'' ''F36_ExchangeRate'' text,
      field_50f text] @
     field_50k text #
     [field_colon ''51A'' ''F51A'' ''F51A_SendingInstitution'' text,
      field_52d text,
      field_colon ''52A'' ''F52A'' ''F52A_BIC'' text,
      field_colon ''53B'' ''F53B'' ''F53B_Account'' text,
      field_54a text,
      field_56 text,
      field_57 text,
      field_59 text,
      field_span ''70'' ''F70'' ''F70_PaymentDetails'' text,
      field_colon ''71A'' ''F71A'' ''F71A_ChargesCode'' text,
      field_71f text,
      field_colon ''71G'' ''F71G'' ''F71G_ReceiverCharges'' text,
      field_span ''72'' ''F72'' ''F72_General'' text,
      field_span ''77B'' ''F77B'' ''F77B_Narrative'' text]"
  by (simp add: text_fields_def)

lemma span_value_None: "span_value tag text = None \<longleftrightarrow> re_search (span_pattern tag) text = None"
proof (cases "re_search (span_pattern tag) text")
  case None
  then show ?thesis by (simp add: span_value_def)
next
  case (Some m)
  from search_span [OF Some] obtain w where "group m ''1'' = Some w" by blast
  with Some show ?thesis by (simp add: span_value_def)
qed

lemma field_suffixes_Cons:
  "field_suffixes num name (suffix # rest) text b =
     (case span_value (num @ suffix) text of
        Some v \<Rightarrow> Inr (AList.update (''F'' @ num @ suffix)
                        (JObj [(''F'' @ num @ suffix @ name, JStr v)]) b)
      | None \<Rightarrow> field_suffixes num name rest text b)"
proof (cases "re_search (span_pattern (num @ suffix)) text")
  case None
  then show ?thesis by (simp add: span_value_def)
next
  case (Some m)
  from search_span [OF Some] obtain w where "group m ''1'' = Some w" by blast
  with Some show ?thesis by (simp add: span_value_def need_def)
qed

lemma text_fields_56:
  "text_fields text =
     [field_token ''20'' ''F20'' ''F20_TRN'' text,
      field_13c text,
      field_token ''23B'' ''F23B'' ''F23B_BankOpCode'' text,
      field_colon ''23E'' ''F23E'' ''F23E_InstructionCode'' text,
      field_colon ''26T'' ''F26T'' ''F26T_TransType'' text,
      field_32a text,
      field_33b text,
      field_colon ''36'' ''F36'' ''F36_ExchangeRate'' text,
      field_50f text,
      field_50k text,
      field_colon ''51A'' ''F51A'' ''F51A_SendingInstitution'' text,
      field_52d text,
      field_colon ''52A'' ''F52A'' ''F52A_BIC'' text,
      field_colon ''53B'' ''F53B'' ''F53B_Account'' text,
      field_54a text] @
     field_56 text #
     [field_57 text,
      field_59 text,
      field_span ''70'' ''F70'' ''F70_PaymentDetails'' text,
      field_colon ''71A'' ''F71A'' ''F71A_ChargesCode'' text,
      field_71f text,
      field_colon ''71G'' ''F71G'' ''F71G_ReceiverCharges'' text,
      field_span ''72'' ''F72'' ''F72_General'' text,
      field_span ''77B'' ''F77B'' ''F77B_Narrative'' text]"
  by (simp add: text_fields_def)

lemma text_fields_57:
  "text_fields text =
     [field_token ''20'' ''F20'' ''F20_TRN'' text,
      field_13c text,
      field_token ''23B'' ''F23B'' ''F23B_BankOpCode'' text,
      field_colon ''23E'' ''F23E'' ''F23E_InstructionCode'' text,
      field_colon ''26T'' ''F26T'' ''F26T_TransType'' text,
      field_32a text,
      field_33b text,
      field_colon ''36'' ''F36'' ''F36_ExchangeRate'' text,
      field_50f text,
      field_50k text,
      field_colon ''51A'' ''F51A'' ''F51A_SendingInstitution'' text,
      field_52d text,
      field_colon ''52A'' ''F52A'' ''F52A_BIC'' text,
      field_colon ''53B'' ''F53B'' ''F53B_Account'' text,
      field_54a text,
      field_56 text] @
     field_57 text #
     [field_59 text,
      field_span ''70'' ''F70'' ''F70_PaymentDetails'' text,
      field_colon ''71A'' ''F71A'' ''F71A_ChargesCode'' text,
      field_71f text,
      field_colon ''71G'' ''F71G'' ''F71G_ReceiverCharges'' text,
      field_span ''72'' ''F72'' ''F72_General'' text,
      field_span ''77B'' ''F77B'' ''F77B_Narrative'' text]"
  by (simp add: text_fields_def)

lemma document_56:
  assumes "parse_text_block text = Inr [(''A'', JObj a)]"
  shows "map_of a ''F56A'' = entry ''F56A_Intermediary'' (span_value ''56A'' text)"
    and "map_of a ''F56C'' =
          (if span_value ''56A'' text = None
           then entry ''F56C_Intermediary'' (span_value ''56C'' text) else None)"
    and "map_of a ''F56D'' =
          (if span_value ''56A'' text = None \<and> span_value ''56C'' text = None
           then entry ''F56D_Intermediary'' (span_value ''56D'' text) else None)"
proof -
  have "\<exists>b b' a. (\<forall>k\<in>{''F56A'', ''F56C'', ''F56D''}. map_of b k = None) \<and>
           field_56 text b = Inr b' \<and>
           parse_text_block text = Inr [(''A'', JObj a)] \<and>
           (\<forall>k\<in>{''F56A'', ''F56C'', ''F56D''}. map_of a k = map_of b' k)"
    by (rule text_focus_set [OF text_fields_56 _ _ _ field_56_ok])
       (simp_all add: keeps_field)
  with assms obtain b b' where f: "map_of b ''F56A'' = None" "map_of b ''F56C'' = None"
    "map_of b ''F56D'' = None" "field_56 text b = Inr b'"
    "map_of a ''F56A'' = map_of b' ''F56A''" "map_of a ''F56C'' = map_of b' ''F56C''"
    "map_of a ''F56D'' = map_of b' ''F56D''"
    by auto
  from f(4) have b': "b' =
    (case span_value ''56A'' text of
       Some v \<Rightarrow> AList.update ''F56A'' (JObj [(''F56A_Intermediary'', JStr v)]) b
     | None \<Rightarrow>
      (case span_value ''56C'' text of
         Some v \<Rightarrow> AList.update ''F56C'' (JObj [(''F56C_Intermediary'', JStr v)]) b
       | None \<Rightarrow>
        (case span_value ''56D'' text of
           Some v \<Rightarrow> AList.update ''F56D'' (JObj [(''F56D_Intermediary'', JStr v)]) b
         | None \<Rightarrow> b)))"
    by (auto simp: field_56_def field_suffixes_Cons simp del: field_suffixes.simps(2)
          split: option.splits)
  show "map_of a ''F56A'' = entry ''F56A_Intermediary'' (span_value ''56A'' text)"
    using f(1,5) by (simp add: b' entry_def map_of_update split: option.splits)
  show "map_of a ''F56C'' =
          (if span_value ''56A'' text = None
           then entry ''F56C_Intermediary'' (span_value ''56C'' text) else None)"
    using f(2,6) by (simp add: b' entry_def map_of_update split: option.splits)
  show "map_of a ''F56D'' =
          (if span_value ''56A'' text = None \<and> span_value ''56C'' text = None
           then entry ''F56D_Intermediary'' (span_value ''56D'' text) else None)"
    using f(3,7) by (simp add: b' entry_def map_of_update split: option.splits)
qed

lemma document_57:
  assumes "parse_text_block text = Inr [(''A'', JObj a)]"
  shows "map_of a ''F57A'' = entry ''F57A_AccountWithInstitution'' (span_value ''57A'' text)"
    and "map_of a ''F57B'' =
          (if span_value ''57A'' text = None
           then entry ''F57B_AccountWithInstitution'' (span_value ''57B'' text) else None)"
    and "map_of a ''F57C'' =
          (if span_value ''57A'' text = None \<and> span_value ''57B'' text = None
           then entry ''F57C_AccountWithInstitution'' (span_value ''57C'' text) else None)"
    and "map_of a ''F57D'' =
          (if span_value ''57A'' text = None \<and> span_value ''57B'' text = None \<and>
              span_value ''57C'' text = None
           then entry ''F57D_AccountWithInstitution'' (span_value ''57D'' text) else None)"
proof -
  have "\<exists>b b' a. (\<forall>k\<in>{''F57A'', ''F57B'', ''F57C'', ''F57D''}. map_of b k = None) \<and>
           field_57 text b = Inr b' \<and>
           parse_text_block text = Inr [(''A'', JObj a)] \<and>
           (\<forall>k\<in>{''F57A'', ''F57B'', ''F57C'', ''F57D''}. map_of a k = map_of b' k)"
    by (rule text_focus_set [OF text_fields_57 _ _ _ field_57_ok])
       (simp_all add: keeps_field)
  with assms obtain b b' where f: "map_of b ''F57A'' = None" "map_of b ''F57B'' = None"
    "map_of b ''F57C'' = None" "map_of b ''F57D'' = None" "field_57 text b = Inr b'"
    "map_of a ''F57A'' = map_of b' ''F57A''" "map_of a ''F57B'' = map_of b' ''F57B''"
    "map_of a ''F57C'' = map_of b' ''F57C''" "map_of a ''F57D'' = map_of b' ''F57D''"
    by auto
  from f(5) have b': "b' =
    (case span_value ''57A'' text of
       Some v \<Rightarrow> AList.update ''F57A'' (JObj [(''F57A_AccountWithInstitution'', JStr v)]) b
     | None \<Rightarrow>
      (case span_value ''57B'' text of
         Some v \<Rightarrow> AList.update ''F57B'' (JObj [(''F57B_AccountWithInstitution'', JStr v)]) b
       | None \<Rightarrow>
        (case span_value ''57C'' text of
           Some v \<Rightarrow>
             AList.update ''F57C'' (JObj [(''F57C_AccountWithInstitution'', JStr v)]) b
         | None \<Rightarrow>
          (case span_value ''57D'' text of
             Some v \<Rightarrow>
               AList.update ''F57D'' (JObj [(''F57D_AccountWithInstitution'', JStr v)]) b
           | None \<Rightarrow> b))))"
    by (auto simp: field_57_def field_suffixes_Cons simp del: field_suffixes.simps(2)
          split: option.splits)
  show "map_of a ''F57A'' = entry ''F57A_AccountWithInstitution'' (span_value ''57A'' text)"
    using f(1,6) by (simp add: b' entry_def map_of_update split: option.splits)
  show "map_of a ''F57B'' =
          (if span_value ''57A'' text = None
           then entry ''F57B_AccountWithInstitution'' (span_value ''57B'' text) else None)"
    using f(2,7) by (simp add: b' entry_def map_of_update split: option.splits)
  show "map_of a ''F57C'' =
          (if span_value ''57A'' text = None \<and> span_value ''57B'' text = None
           then entry ''F57C_AccountWithInstitution'' (span_value ''57C'' text) else None)"
    using f(3,8) by (simp add: b' entry_def map_of_update split: option.splits)
  show "map_of a ''F57D'' =
          (if span_value ''57A'' text = None \<and> span_value ''57B'' text = None \<and>
              span_value ''57C'' text = None
           then entry ''F57D_AccountWithInstitution'' (span_value ''57D'' text) else None)"
    using f(4,9) by (simp add: b' entry_def map_of_update split: option.splits)
qed

section \<open>Fields that depend on other fields\<close>

text \<open>
  Claim C3. Tag 50K is decoded only when the marker \<open>:50F:\<close> occurs nowhere in the body.
  When the marker occurs, the document has no key \<open>F50K\<close>, whether or not a 50K span is
  there and whether or not the 50F decode itself succeeds; when it does not occur, the key
  holds the stripped 50K span if there is one. In the body \<open>:50K:ABC\<close>, newline,
  \<open>:50F:\<close> the 50F marker ends the text, its decode fails, and still no 50K is stored.
\<close>

theorem ordering_customer_gate:
  "(\<exists>a. parse_text_block text = Inr [(''A'', JObj a)] \<and>
     ((\<exists>pre suf. text = pre @ '':50F:'' @ suf) \<longrightarrow> map_of a ''F50K'' = None) \<and>
     (\<not> (\<exists>pre suf. text = pre @ '':50F:'' @ suf) \<longrightarrow>
        map_of a ''F50K'' =
          (case re_search (span_pattern ''50K'') text of
             None \<Rightarrow> None
           | Some m \<Rightarrow>
               map_option (\<lambda>v. JObj [(''F50K_OrderingCustomer'', JStr (py_strip v))])
                 (group m ''1''))))
   \<and> parse_text_block '':50K:ABC\<newline>:50F:'' = Inr [(''A'', JObj [])]"
proof -
  have "\<exists>b b' a. (\<forall>k\<in>{''F50K''}. map_of b k = None) \<and> field_50k text b = Inr b' \<and>
           parse_text_block text = Inr [(''A'', JObj a)] \<and>
           (\<forall>k\<in>{''F50K''}. map_of a k = map_of b' k)"
    by (rule text_focus_set [OF text_fields_50k _ _ _ field_50k_ok])
       (simp_all add: keeps_field)
  then obtain b b' a where f: "map_of b ''F50K'' = None" "field_50k text b = Inr b'"
    "parse_text_block text = Inr [(''A'', JObj a)]" "map_of a ''F50K'' = map_of b' ''F50K''"
    by auto
  have 1: "map_of a ''F50K'' = None" if "\<exists>pre suf. text = pre @ '':50F:'' @ suf"
  proof -
    from that have "py_contains '':50F:'' text" by (simp add: py_contains_iff)
    with f(2) have "b' = b" by (simp add: field_50k_def)
    with f show ?thesis by simp
  qed
  have 2: "map_of a ''F50K'' =
          (case re_search (span_pattern ''50K'') text of
             None \<Rightarrow> None
           | Some m \<Rightarrow>
               map_option (\<lambda>v. JObj [(''F50K_OrderingCustomer'', JStr (py_strip v))])
                 (group m ''1''))" if "\<not> (\<exists>pre suf. text = pre @ '':50F:'' @ suf)"
  proof -
    from that have n: "\<not> py_contains '':50F:'' text" by (simp add: py_contains_iff)
    show ?thesis
    proof (cases "re_search (span_pattern ''50K'') text")
      case None
      with n f(2) have "b' = b" by (simp add: field_50k_def)
      with f None show ?thesis by simp
    next
      case (Some m)
      from search_span [OF Some] obtain w where w: "group m ''1'' = Some w" by blast
      with n f(2) Some have "b' = AList.update ''F50K''
          (JObj [(''F50K_OrderingCustomer'', JStr (py_strip w))]) b"
        by (simp add: field_50k_def need_def)
      with f Some w show ?thesis by (simp add: map_of_update)
    qed
  qed
  have 3: "parse_text_block '':50K:ABC\<newline>:50F:'' = Inr [(''A'', JObj [])]"
    by code_simp
  from f(3) 1 2 3 show ?thesis by blast
qed

theorem ordering_customer_gate_witness:
  "(\<exists>pre suf. '':50K:ABC\<newline>:50F:X'' = pre @ '':50F:'' @ suf)
   \<and> (\<exists>a. parse_text_block '':50K:ABC\<newline>:50F:X'' = Inr [(''A'', JObj a)]
          \<and> map_of a ''F50K'' = None)
   \<and> \<not> (\<exists>pre suf. '':50K:ABC'' = pre @ '':50F:'' @ suf)
   \<and> (\<exists>a. parse_text_block '':50K:ABC'' = Inr [(''A'', JObj a)]
          \<and> map_of a ''F50K'' = Some (JObj [(''F50K_OrderingCustomer'', JStr ''ABC'')]))"
proof -
  have "py_contains '':50F:'' '':50K:ABC\<newline>:50F:X''"
    by (simp add: startswith_def)
  then have h1: "\<exists>pre suf. '':50K:ABC\<newline>:50F:X'' = pre @ '':50F:'' @ suf"
    using py_contains_iff by blast
  have "\<not> py_contains '':50F:'' '':50K:ABC''"
    by (simp add: startswith_def)
  then have h2: "\<not> (\<exists>pre suf. '':50K:ABC'' = pre @ '':50F:'' @ suf)"
    using py_contains_iff by blast
  have e: "(case re_search (span_pattern ''50K'') '':50K:ABC'' of
             None \<Rightarrow> None
           | Some m \<Rightarrow>
               map_option (\<lambda>v. JObj [(''F50K_OrderingCustomer'', JStr (py_strip v))])
                 (group m ''1'')) = Some (JObj [(''F50K_OrderingCustomer'', JStr ''ABC'')])"
    by code_simp
  from ordering_customer_gate [of "'':50K:ABC\<newline>:50F:X''"] h1
  have c1: "\<exists>a. parse_text_block '':50K:ABC\<newline>:50F:X'' = Inr [(''A'', JObj a)]
          \<and> map_of a ''F50K'' = None"
    by blast
  from ordering_customer_gate [of "'':50K:ABC''"] h2 e
  have c2: "\<exists>a. parse_text_block '':50K:ABC'' = Inr [(''A'', JObj a)]
          \<and> map_of a ''F50K'' = Some (JObj [(''F50K_OrderingCustomer'', JStr ''ABC'')])"
    by auto
  from h1 c1 h2 c2 show ?thesis by blast
qed

text \<open>
  Claim C4. The suffixes of tag 56 are tried in the order A, C, D and those of tag 57 in
  the order A, B, C, D; the first suffix that has a span is the only one stored, and the
  later ones are left out even when their spans are there. A body with a 56D span
  followed by a 56A span stores the 56A value only.
\<close>

theorem suffix_precedence:
  "(\<exists>a. parse_text_block text = Inr [(''A'', JObj a)]
     \<and> map_of a ''F56A'' = entry ''F56A_Intermediary'' (span_value ''56A'' text)
     \<and> map_of a ''F56C'' =
          (if span_value ''56A'' text = None
           then entry ''F56C_Intermediary'' (span_value ''56C'' text) else None)
     \<and> map_of a ''F56D'' =
          (if span_value ''56A'' text = None \<and> span_value ''56C'' text = None
           then entry ''F56D_Intermediary'' (span_value ''56D'' text) else None)
     \<and> map_of a ''F57A'' = entry ''F57A_AccountWithInstitution'' (span_value ''57A'' text)
     \<and> map_of a ''F57B'' =
          (if span_value ''57A'' text = None
           then entry ''F57B_AccountWithInstitution'' (span_value ''57B'' text) else None)
     \<and> map_of a ''F57C'' =
          (if span_value ''57A'' text = None \<and> span_value ''57B'' text = None
           then entry ''F57C_AccountWithInstitution'' (span_value ''57C'' text) else None)
     \<and> map_of a ''F57D'' =
          (if span_value ''57A'' text = None \<and> span_value ''57B'' text = None \<and>
              span_value ''57C'' text = None
           then entry ''F57D_AccountWithInstitution'' (span_value ''57D'' text) else None))
   \<and> span_value ''56A'' '':56D:BANK D\<newline>STREET\<newline>:56A:BANKAAXX'' = Some ''BANKAAXX''
   \<and> span_value ''56D'' '':56D:BANK D\<newline>STREET\<newline>:56A:BANKAAXX'' = Some ''BANK D\<newline>STREET''
   \<and> parse_text_block '':56D:BANK D\<newline>STREET\<newline>:56A:BANKAAXX'' =
       Inr [(''A'', JObj [(''F56A'', JObj [(''F56A_Intermediary'', JStr ''BANKAAXX'')])])]"
proof -
  obtain a where a: "parse_text_block text = Inr [(''A'', JObj a)]"
    using parse_text_block_total by blast
  have 1: "span_value ''56A'' '':56D:BANK D\<newline>STREET\<newline>:56A:BANKAAXX'' = Some ''BANKAAXX''"
    by code_simp
  have 2: "span_value ''56D'' '':56D:BANK D\<newline>STREET\<newline>:56A:BANKAAXX'' = Some ''BANK D\<newline>STREET''"
    by code_simp
  have 3: "parse_text_block '':56D:BANK D\<newline>STREET\<newline>:56A:BANKAAXX'' =
       Inr [(''A'', JObj [(''F56A'', JObj [(''F56A_Intermediary'', JStr ''BANKAAXX'')])])]"
    by code_simp
  from a document_56 [OF a] document_57 [OF a] 1 2 3 show ?thesis by blast
qed

section \<open>Repeatable fields\<close>

lemma text_focus_at:
  assumes "n < length (text_fields text)" and "Ks \<noteq> {}"
      and "list_all (\<lambda>f. \<forall>k\<in>Ks. keeps k f) (take n (text_fields text))"
      and "list_all (\<lambda>f. \<forall>k\<in>Ks. keeps k f) (drop (Suc n) (text_fields text))"
      and "step_ok K (text_fields text ! n)"
  shows "\<exists>b b' a. (\<forall>k\<in>Ks. map_of b k = None) \<and> (text_fields text ! n) b = Inr b' \<and>
           parse_text_block text = Inr [(''A'', JObj a)] \<and>
           (\<forall>k\<in>Ks. map_of a k = map_of b' k)"
  by (rule text_focus_set [OF id_take_nth_drop [OF assms(1)] assms(2-5)])

lemma finditer_from_located:
  "m \<in> set (finditer_from r i s) \<Longrightarrow>
   \<exists>pre w. s = pre @ w @ m_rest m \<and> m_start m = i + length pre \<and>
     sem r (w @ m_rest m) Map.empty (m_rest m) (m_groups m)"
proof (induction r i s rule: finditer_from.induct)
  case (1 r i s)
  show ?case
  proof (cases "search_from r i s")
    case None
    with "1.prems" show ?thesis by (simp only: finditer_from_None) simp
  next
    case (Some m0)
    from search_from_located [OF Some] obtain pre0 w0 where
      l: "s = pre0 @ w0 @ m_rest m0" "m_start m0 = i + length pre0"
         "sem r (w0 @ m_rest m0) Map.empty (m_rest m0) (m_groups m0)" by blast
    show ?thesis
    proof (cases "length (m_rest m0) < length s")
      case False
      from "1.prems" have "m = m0"
        by (simp only: finditer_from_last [OF Some False]) simp
      with l show ?thesis by blast
    next
      case True
      from "1.prems" have
        "m = m0 \<or> m \<in> set (finditer_from r (i + (length s - length (m_rest m0))) (m_rest m0))"
        by (simp only: finditer_from_next [OF Some True]) simp
      then show ?thesis
      proof
        assume "m = m0"
        with l show ?thesis by blast
      next
        assume "m \<in> set (finditer_from r (i + (length s - length (m_rest m0))) (m_rest m0))"
        from "1.IH" [OF Some True this] obtain pre w where
          p: "m_rest m0 = pre @ w @ m_rest m"
             "m_start m = i + (length s - length (m_rest m0)) + length pre"
             "sem r (w @ m_rest m) Map.empty (m_rest m) (m_groups m)" by blast
        have "s = (pre0 @ w0 @ pre) @ w @ m_rest m" using l(1) p(1) by simp
        moreover have "m_start m = i + length (pre0 @ w0 @ pre)"
          using p(2) l(1) by simp
        ultimately show ?thesis using p(3) by blast
      qed
    qed
  qed
qed

lemma finditer_13c_occurrence:
  assumes "m \<in> set (re_finditer pattern_13c text)"
  shows "\<exists>code time sign offset.
     drop (m_start m) text = '':13C:/'' @ code @ ''/'' @ time @ sign @ offset @ m_rest m \<and>
     time_indication m = Inr (JObj
       [(''F13C_Code'', JStr code),
        (''F13C_Time'', JStr (take 2 time @ '':'' @ drop 2 time @ '':00'')),
        (''F13C_Sign'', JStr sign),
        (''F13C_Offset'', JStr (take 2 offset @ '':'' @ drop 2 offset @ '':00''))])"
proof -
  from assms have "m \<in> set (finditer_from pattern_13c 0 text)"
    by (simp add: re_finditer_def)
  from finditer_from_located [OF this] obtain pre w where
    p: "text = pre @ w @ m_rest m" "m_start m = length pre"
       "sem pattern_13c (w @ m_rest m) Map.empty (m_rest m) (m_groups m)"
    by auto
  from sem_13c [OF p(3)] obtain code time sign offset where
    c: "w @ m_rest m = '':13C:/'' @ code @ ''/'' @ time @ sign @ offset @ m_rest m"
       "m_groups m = [''code'' \<mapsto> code, ''time'' \<mapsto> time, ''sign'' \<mapsto> sign, ''offset'' \<mapsto> offset]"
    by blast
  from p(1,2) have "drop (m_start m) text = w @ m_rest m" by simp
  with c show ?thesis
    by (intro exI [of _ code] exI [of _ time] exI [of _ sign] exI [of _ offset])
       (simp add: time_indication_def need_def group_def jopt_def)
qed

lemma finditer_71f_occurrence:
  assumes "m \<in> set (re_finditer (amount_pattern ''71F'') text)"
  shows "\<exists>c amt.
     drop (m_start m) text = '':71F:'' @ c @ amt @ m_rest m \<and>
     charge m = Inr (JObj [(''F71F_Curr'', JStr c), (''F71F_Amount'', JStr (parse_amount amt))])"
proof -
  from assms have "m \<in> set (finditer_from (amount_pattern ''71F'') 0 text)"
    by (simp add: re_finditer_def)
  from finditer_from_located [OF this] obtain pre w where
    p: "text = pre @ w @ m_rest m" "m_start m = length pre"
       "sem (amount_pattern ''71F'') (w @ m_rest m) Map.empty (m_rest m) (m_groups m)"
    by auto
  from sem_amount [OF p(3)] obtain c amt where
    c: "w @ m_rest m = '':'' @ ''71F'' @ '':'' @ c @ amt @ m_rest m"
       "m_groups m = [''1'' \<mapsto> c, ''2'' \<mapsto> amt]"
    by blast
  from p(1,2) have "drop (m_start m) text = w @ m_rest m" by simp
  with c show ?thesis
    by (intro exI [of _ c] exI [of _ amt])
       (simp add: charge_def need_def group_def jopt_def)
qed

lemma document_13c:
  assumes "parse_text_block text = Inr [(''A'', JObj a)]"
      and "map Inr tis = map time_indication (re_finditer pattern_13c text)"
  shows "map_of a ''A1'' =
     (if tis = [] then None
      else if length tis = 1 then Some (JObj [(''F13C'', tis ! 0)])
      else Some (JObj [(''F13C'', JList tis)]))"
proof -
  have "\<exists>b b' a. (\<forall>k\<in>{''A1''}. map_of b k = None) \<and>
           (text_fields text ! 1) b = Inr b' \<and>
           parse_text_block text = Inr [(''A'', JObj a)] \<and>
           (\<forall>k\<in>{''A1''}. map_of a k = map_of b' k)"
    by (rule text_focus_at [where K = "{''A1''}"])
       (simp_all add: text_fields_def keeps_field field_13c_ok)
  with assms(1) obtain b b' where f: "map_of b ''A1'' = None" "field_13c text b = Inr b'"
    "map_of a ''A1'' = map_of b' ''A1''"
    by (auto simp: text_fields_def)
  from field_13c_eq [of "text"] obtain tis' where
    t: "map Inr tis' = map time_indication (re_finditer pattern_13c text)"
       "field_13c text = (\<lambda>a. Inr (if tis' = [] then a
            else if length tis' = 1 then AList.update ''A1'' (JObj [(''F13C'', tis' ! 0)]) a
            else AList.update ''A1'' (JObj [(''F13C'', JList tis')]) a))" by blast
  from t(1) assms(2) have "map Inr tis' = (map Inr tis :: (error + json) list)" by simp
  then have "tis' = tis" by (simp add: inj_map_eq_map)
  with f t(2) show ?thesis by (auto simp: map_of_update)
qed

lemma document_71f:
  assumes "parse_text_block text = Inr [(''A'', JObj a)]"
      and "map Inr charges = map charge (re_finditer (amount_pattern ''71F'') text)"
  shows "map_of a ''A3'' =
     (if charges = [] then None
      else if length charges = 1 then Some (JObj [(''F71F'', charges ! 0)])
      else Some (JObj [(''F71F'', JList charges)]))"
proof -
  have "\<exists>b b' a. (\<forall>k\<in>{''A3''}. map_of b k = None) \<and>
           (text_fields text ! 20) b = Inr b' \<and>
           parse_text_block text = Inr [(''A'', JObj a)] \<and>
           (\<forall>k\<in>{''A3''}. map_of a k = map_of b' k)"
    by (rule text_focus_at [where K = "{''A3''}"])
       (simp_all add: text_fields_def keeps_field field_71f_ok)
  with assms(1) obtain b b' where f: "map_of b ''A3'' = None" "field_71f text b = Inr b'"
    "map_of a ''A3'' = map_of b' ''A3''"
    by (auto simp: text_fields_def)
  from field_71f_eq [of "text"] obtain cs where
    t: "map Inr cs = map charge (re_finditer (amount_pattern ''71F'') text)"
       "field_71f text = (\<lambda>a. Inr (if cs = [] then a
            else if length cs = 1 then AList.update ''A3'' (JObj [(''F71F'', cs ! 0)]) a
            else AList.update ''A3'' (JObj [(''F71F'', JList cs)]) a))" by blast
  from t(1) assms(2) have "map Inr cs = (map Inr charges :: (error + json) list)" by simp
  then have "cs = charges" by (simp add: inj_map_eq_map)
  with f t(2) show ?thesis by (auto simp: map_of_update)
qed

text \<open>
  Claim C2. The occurrences of a repeatable tag are the successive matches of its
  pattern, found from left to right at strictly increasing offsets; each stored object is
  the decode of the occurrence at its offset, and the stored list has the objects in that
  order. With no occurrence the group key (\<open>A1\<close> for 13C, \<open>A3\<close> for 71F) is absent, with
  exactly one occurrence the tag is stored as that single object, and with more than one
  as the list of the objects in encounter order. One 13C gives a single object, two give a
  list of two in the order of the text.
\<close>

theorem repeatable_fields:
  "(\<exists>a tis charges.
       parse_text_block text = Inr [(''A'', JObj a)]
     \<and> map Inr tis = map time_indication (re_finditer pattern_13c text)
     \<and> map Inr charges = map charge (re_finditer (amount_pattern ''71F'') text)
     \<and> (tis = [] \<longrightarrow> map_of a ''A1'' = None)
     \<and> (length tis = 1 \<longrightarrow> map_of a ''A1'' = Some (JObj [(''F13C'', tis ! 0)]))
     \<and> (1 < length tis \<longrightarrow> map_of a ''A1'' = Some (JObj [(''F13C'', JList tis)]))
     \<and> (charges = [] \<longrightarrow> map_of a ''A3'' = None)
     \<and> (length charges = 1 \<longrightarrow> map_of a ''A3'' = Some (JObj [(''F71F'', charges ! 0)]))
     \<and> (1 < length charges \<longrightarrow> map_of a ''A3'' = Some (JObj [(''F71F'', JList charges)])))
   \<and> sorted_wrt (<) (map m_start (re_finditer pattern_13c text))
   \<and> sorted_wrt (<) (map m_start (re_finditer (amount_pattern ''71F'') text))
   \<and> (\<forall>m \<in> set (re_finditer pattern_13c text). \<exists>code time sign offset.
         drop (m_start m) text = '':13C:/'' @ code @ ''/'' @ time @ sign @ offset @ m_rest m \<and>
         time_indication m = Inr (JObj
           [(''F13C_Code'', JStr code),
            (''F13C_Time'', JStr (take 2 time @ '':'' @ drop 2 time @ '':00'')),
            (''F13C_Sign'', JStr sign),
            (''F13C_Offset'', JStr (take 2 offset @ '':'' @ drop 2 offset @ '':00''))]))
   \<and> (\<forall>m \<in> set (re_finditer (amount_pattern ''71F'') text). \<exists>c amt.
         drop (m_start m) text = '':71F:'' @ c @ amt @ m_rest m \<and>
         charge m = Inr (JObj [(''F71F_Curr'', JStr c),
                               (''F71F_Amount'', JStr (parse_amount amt))]))
   \<and> parse_text_block '':13C:/CLSTIME/0945+0100'' =
       Inr [(''A'', JObj [(''A1'', JObj [(''F13C'', JObj
         [(''F13C_Code'', JStr ''CLSTIME''), (''F13C_Time'', JStr ''09:45:00''),
          (''F13C_Sign'', JStr ''+''), (''F13C_Offset'', JStr ''01:00:00'')])])])]
   \<and> parse_text_block '':13C:/CLSTIME/0945+0100\<newline>:13C:/RNCTIME/1030-0500'' =
       Inr [(''A'', JObj [(''A1'', JObj [(''F13C'', JList
         [JObj [(''F13C_Code'', JStr ''CLSTIME''), (''F13C_Time'', JStr ''09:45:00''),
                (''F13C_Sign'', JStr ''+''), (''F13C_Offset'', JStr ''01:00:00'')],
          JObj [(''F13C_Code'', JStr ''RNCTIME''), (''F13C_Time'', JStr ''10:30:00''),
                (''F13C_Sign'', JStr ''-''), (''F13C_Offset'', JStr ''05:00:00'')]])])])]"
proof -
  obtain a where a: "parse_text_block text = Inr [(''A'', JObj a)]"
    using parse_text_block_total by blast
  from field_13c_eq [of "text"] obtain tis where
    t: "map Inr tis = map time_indication (re_finditer pattern_13c text)" by blast
  from field_71f_eq [of "text"] obtain charges where
    c: "map Inr charges = map charge (re_finditer (amount_pattern ''71F'') text)" by blast
  note d1 = document_13c [OF a t]
  note d2 = document_71f [OF a c]
  have doc: "\<exists>a tis charges.
       parse_text_block text = Inr [(''A'', JObj a)]
     \<and> map Inr tis = map time_indication (re_finditer pattern_13c text)
     \<and> map Inr charges = map charge (re_finditer (amount_pattern ''71F'') text)
     \<and> (tis = [] \<longrightarrow> map_of a ''A1'' = None)
     \<and> (length tis = 1 \<longrightarrow> map_of a ''A1'' = Some (JObj [(''F13C'', tis ! 0)]))
     \<and> (1 < length tis \<longrightarrow> map_of a ''A1'' = Some (JObj [(''F13C'', JList tis)]))
     \<and> (charges = [] \<longrightarrow> map_of a ''A3'' = None)
     \<and> (length charges = 1 \<longrightarrow> map_of a ''A3'' = Some (JObj [(''F71F'', charges ! 0)]))
     \<and> (1 < length charges \<longrightarrow> map_of a ''A3'' = Some (JObj [(''F71F'', JList charges)]))"
    by (intro exI [of _ a] exI [of _ tis] exI [of _ charges]) (simp add: a t c d1 d2)
  have s1: "sorted_wrt (<) (map m_start (re_finditer pattern_13c text))"
    unfolding re_finditer_def by (rule finditer_from_sorted [OF consuming_13c])
  have s2: "sorted_wrt (<) (map m_start (re_finditer (amount_pattern ''71F'') text))"
    unfolding re_finditer_def by (rule finditer_from_sorted [OF consuming_amount])
  have e1: "parse_text_block '':13C:/CLSTIME/0945+0100'' =
       Inr [(''A'', JObj [(''A1'', JObj [(''F13C'', JObj
         [(''F13C_Code'', JStr ''CLSTIME''), (''F13C_Time'', JStr ''09:45:00''),
          (''F13C_Sign'', JStr ''+''), (''F13C_Offset'', JStr ''01:00:00'')])])])]"
    by code_simp
  have e2: "parse_text_block '':13C:/CLSTIME/0945+0100\<newline>:13C:/RNCTIME/1030-0500'' =
       Inr [(''A'', JObj [(''A1'', JObj [(''F13C'', JList
         [JObj [(''F13C_Code'', JStr ''CLSTIME''), (''F13C_Time'', JStr ''09:45:00''),
                (''F13C_Sign'', JStr ''+''), (''F13C_Offset'', JStr ''01:00:00'')],
          JObj [(''F13C_Code'', JStr ''RNCTIME''), (''F13C_Time'', JStr ''10:30:00''),
                (''F13C_Sign'', JStr ''-''), (''F13C_Offset'', JStr ''05:00:00'')]])])])]"
    by code_simp
  from doc s1 s2 finditer_13c_occurrence finditer_71f_occurrence e1 e2
  show ?thesis by blast
qed

theorem repeatable_fields_witness:
  "\<exists>a c1 c2. parse_text_block '':71F:AUD150,00\<newline>:71F:USD100,00'' = Inr [(''A'', JObj a)]
     \<and> map charge (re_finditer (amount_pattern ''71F'') '':71F:AUD150,00\<newline>:71F:USD100,00'')
         = [Inr c1, Inr c2]
     \<and> map_of a ''A3'' = Some (JObj [(''F71F'', JList [c1, c2])])
     \<and> map_of a ''A1'' = None"
proof -
  let ?t = "'':71F:AUD150,00\<newline>:71F:USD100,00''"
  let ?c1 = "JObj [(''F71F_Curr'', JStr ''AUD''), (''F71F_Amount'', JStr ''150.00'')]"
  let ?c2 = "JObj [(''F71F_Curr'', JStr ''USD''), (''F71F_Amount'', JStr ''100.00'')]"
  have m: "map charge (re_finditer (amount_pattern ''71F'') ?t) = [Inr ?c1, Inr ?c2]"
    by code_simp
  have n: "map time_indication (re_finditer pattern_13c ?t) = []"
    by code_simp
  from repeatable_fields [of ?t] obtain a tis charges where
    r: "parse_text_block ?t = Inr [(''A'', JObj a)]"
       "map Inr tis = map time_indication (re_finditer pattern_13c ?t)"
       "map Inr charges = map charge (re_finditer (amount_pattern ''71F'') ?t)"
       "tis = [] \<longrightarrow> map_of a ''A1'' = None"
       "1 < length charges \<longrightarrow> map_of a ''A3'' = Some (JObj [(''F71F'', JList charges)])"
    by blast
  from r(2) n have "tis = []" by simp
  from r(3) m have "map Inr charges = [Inr ?c1, Inr ?c2 :: error + json]" by simp
  then have "charges = [?c1, ?c2]" by (auto simp: map_eq_Cons_conv)
  with r \<open>tis = []\<close> m show ?thesis by auto
qed

section \<open>The converter never raises\<close>

lemma sem_block4:
  assumes "sem block4_pattern t g s' g'"
  shows "\<exists>ws1 w ws2. t = ''{4:'' @ ws1 @ w @ ws2 @ ''-}'' @ s' \<and> w \<noteq> [] \<and>
           list_all is_space ws1 \<and> list_all is_space ws2 \<and> g' = g(''1'' \<mapsto> w)"
proof -
  from assms obtain ws1 w ws2 where "t = ''{4:'' @ ws1 @ w @ ws2 @ ''-}'' @ s'" "w \<noteq> []"
    "list_all is_space ws1" "list_all is_space ws2" "g' = g(''1'' \<mapsto> w)"
    by (auto simp: block4_pattern_def star_def lazy_plus_def Suc_le_eq)
  then show ?thesis by blast
qed

lemma block_content_brace:
  "block_content (brace_pattern num) s = None \<longleftrightarrow> re_search (brace_pattern num) s = None"
proof (cases "re_search (brace_pattern num) s")
  case None
  then show ?thesis by (simp add: block_content_def)
next
  case (Some m)
  from search_brace [OF Some] obtain w where "group m ''1'' = Some w" by blast
  with Some show ?thesis by (simp add: block_content_def)
qed

lemma search_block4:
  assumes "re_search block4_pattern text = Some m"
  shows "\<exists>pre ws1 w ws2. text = pre @ ''{4:'' @ ws1 @ w @ ws2 @ ''-}'' @ m_rest m \<and> w \<noteq> [] \<and>
           group m ''1'' = Some w"
proof -
  from re_search_sound [OF assms] obtain pre t where
    t: "text = pre @ t" "sem block4_pattern t Map.empty (m_rest m) (m_groups m)" by blast
  from sem_block4 [OF t(2)] obtain ws1 w ws2 where
    w: "t = ''{4:'' @ ws1 @ w @ ws2 @ ''-}'' @ m_rest m" "w \<noteq> []"
       "m_groups m = [''1'' \<mapsto> w]" by blast
  from w(3) have "group m ''1'' = Some w" by (simp add: group_def)
  with t(1) w(1,2) show ?thesis by blast
qed

lemma block_content_block4:
  "block_content block4_pattern s = None \<longleftrightarrow> re_search block4_pattern s = None"
proof (cases "re_search block4_pattern s")
  case None
  then show ?thesis by (simp add: block_content_def)
next
  case (Some m)
  from search_block4 [OF Some] obtain w where "group m ''1'' = Some w" by blast
  with Some show ?thesis by (simp add: block_content_def)
qed

lemma dict_update_Nil [simp]: "dict_update d [] = d"
  by (simp add: dict_update_def)

lemma block_header_eq:
  "block_header num parse s d = Inr (dict_update d (header_fields parse num s))"
proof (cases "re_search (brace_pattern num) s")
  case None
  then show ?thesis by (simp add: block_header_def header_fields_def block_content_def)
next
  case (Some m)
  from search_brace [OF Some] obtain w where "group m ''1'' = Some w" by blast
  with Some show ?thesis
    by (simp add: block_header_def header_fields_def block_content_def need_def)
qed

lemma block_text_eq: "block_text s d = Inr (dict_update d (text_data s))"
proof (cases "re_search block4_pattern s")
  case None
  then show ?thesis by (simp add: block_text_def text_data_def block_content_def)
next
  case (Some m)
  from search_block4 [OF Some] obtain w where w: "group m ''1'' = Some w" by blast
  from parse_text_block_total obtain a where "parse_text_block w = Inr [(''A'', JObj a)]"
    by blast
  with Some w show ?thesis
    by (simp add: block_text_def text_data_def block_content_def need_def)
qed

lemma block_trailer_eq: "block_trailer s d = Inr (dict_update d (trailer_data s))"
  by (simp add: block_trailer_def trailer_data_def dict_update_def split: option.splits)

lemma mt103_to_json_eq:
  "mt103_to_json msg =
     Inr (JObj [(''MT103'', JObj
       (dict_update (dict_update (dict_update (dict_update (dict_update []
          (header_fields parse_basic_header ''1'' (py_strip msg)))
          (header_fields parse_application_header ''2'' (py_strip msg)))
          (header_fields parse_user_header ''3'' (py_strip msg)))
          (text_data (py_strip msg)))
          (trailer_data (py_strip msg))))])"
  by (simp add: mt103_to_json_def Let_def block_header_eq block_text_eq block_trailer_eq)

lemma set_py_strip: "set (py_strip s) \<subseteq> set s"
proof
  fix x assume "x \<in> set (py_strip s)"
  then have "x \<in> set (dropWhile is_space (rev (dropWhile is_space s)))"
    by (simp add: py_strip_def)
  then have "x \<in> set (rev (dropWhile is_space s))" by (rule set_dropWhileD)
  then have "x \<in> set (dropWhile is_space s)" by simp
  then show "x \<in> set s" by (rule set_dropWhileD)
qed

lemma brace_needs_brace:
  "CHR ''{'' \<notin> set s \<Longrightarrow> re_search (brace_pattern num) s = None"
proof (rule ccontr)
  assume n: "CHR ''{'' \<notin> set s" and "re_search (brace_pattern num) s \<noteq> None"
  then obtain m where "re_search (brace_pattern num) s = Some m" by auto
  from search_brace [OF this] obtain pre w where
    "s = pre @ ''{'' @ num @ '':'' @ w @ ''}'' @ m_rest m" by blast
  then have "CHR ''{'' \<in> set s" by simp
  with n show False by simp
qed

lemma block4_needs_brace:
  "CHR ''{'' \<notin> set s \<Longrightarrow> re_search block4_pattern s = None"
proof (rule ccontr)
  assume n: "CHR ''{'' \<notin> set s" and "re_search block4_pattern s \<noteq> None"
  then obtain m where "re_search block4_pattern s = Some m" by auto
  from search_block4 [OF this] obtain pre ws1 w ws2 where
    "s = pre @ ''{4:'' @ ws1 @ w @ ws2 @ ''-}'' @ m_rest m" by blast
  then have "CHR ''{'' \<in> set s" by simp
  with n show False by simp
qed

text \<open>
  Claim C10. For every input string the converter returns a dictionary whose only
  top-level key is \<open>MT103\<close>; no step raises. When none of the five block patterns finds
  a match, and in particular when the input has no opening brace at all, the value under
  \<open>MT103\<close> is the empty dictionary. The empty string gives \<open>{"MT103": {}}\<close>.
\<close>

theorem converter_total:
  "(\<exists>d. mt103_to_json msg = Inr (JObj [(''MT103'', JObj d)])
      \<and> (re_search (brace_pattern ''1'') (py_strip msg) = None
         \<and> re_search (brace_pattern ''2'') (py_strip msg) = None
         \<and> re_search (brace_pattern ''3'') (py_strip msg) = None
         \<and> re_search block4_pattern (py_strip msg) = None
         \<and> re_search (brace_pattern ''5'') (py_strip msg) = None \<longrightarrow> d = [])
      \<and> (CHR ''{'' \<notin> set msg \<longrightarrow> d = []))
   \<and> mt103_to_json [] = Inr (JObj [(''MT103'', JObj [])])"
proof -
  define s where "s = py_strip msg"
  define d where "d = dict_update (dict_update (dict_update (dict_update (dict_update []
          (header_fields parse_basic_header ''1'' s))
          (header_fields parse_application_header ''2'' s))
          (header_fields parse_user_header ''3'' s))
          (text_data s))
          (trailer_data s)"
  have j: "mt103_to_json msg = Inr (JObj [(''MT103'', JObj d)])"
    unfolding d_def s_def by (rule mt103_to_json_eq)
  have none: "d = []"
    if "re_search (brace_pattern ''1'') s = None" "re_search (brace_pattern ''2'') s = None"
       "re_search (brace_pattern ''3'') s = None" "re_search block4_pattern s = None"
       "re_search (brace_pattern ''5'') s = None"
    unfolding d_def using that
    by (simp add: header_fields_def text_data_def trailer_data_def block_content_def)
  have nobrace: "d = []" if "CHR ''{'' \<notin> set msg"
  proof -
    from that set_py_strip [of msg] have "CHR ''{'' \<notin> set s" unfolding s_def by blast
    then show ?thesis by (intro none brace_needs_brace block4_needs_brace)
  qed
  have e: "mt103_to_json [] = Inr (JObj [(''MT103'', JObj [])])"
    by code_simp
  have "\<exists>d. mt103_to_json msg = Inr (JObj [(''MT103'', JObj d)])
      \<and> (re_search (brace_pattern ''1'') s = None
         \<and> re_search (brace_pattern ''2'') s = None
         \<and> re_search (brace_pattern ''3'') s = None
         \<and> re_search block4_pattern s = None
         \<and> re_search (brace_pattern ''5'') s = None \<longrightarrow> d = [])
      \<and> (CHR ''{'' \<notin> set msg \<longrightarrow> d = [])"
    using j none nobrace by (intro exI [of _ d]) simp
  with e show ?thesis unfolding s_def by (rule conjI [rotated])
qed

theorem converter_total_witness:
  "CHR ''{'' \<notin> set ''no blocks here''
   \<and> mt103_to_json ''no blocks here'' = Inr (JObj [(''MT103'', JObj [])])"
proof -
  have h: "CHR ''{'' \<notin> set ''no blocks here''" by simp
  with converter_total [of "''no blocks here''"] show ?thesis by auto
qed

section \<open>End-to-end decoding\<close>

text \<open>
  Claim C1. The message of the end-to-end scenario, which has no block 3 and no block 5,
  decodes to the document below: the transaction reference is \<open>TEST-001\<close>, the value
  date \<open>2024-01-01\<close>, the currency \<open>USD\<close>, the amount \<open>10000.00\<close> and the charge code
  \<open>SHA\<close>, and the fields of blocks 1, 2 and 4 are all there.
\<close>

theorem scenario_document:
  "mt103_to_json
     ''{1:F01TESTBANK0XXX0001000001}{2:I103TESTBANK1XXXN}{4:\<newline>:20:TEST-001\<newline>:23B:CRED\<newline>:32A:240101USD10000,00\<newline>:59:/123456\<newline>BEN NAME\<newline>:71A:SHA\<newline>-}'' =
   Inr (JObj
     [(''MT103'', JObj
        [(''Application_Id'', JStr ''F''),
         (''Service_Id'', JStr ''01''),
         (''LT_Address'', JStr ''TESTBANK0XXX''),
         (''Session'', JStr ''0001''),
         (''Sequence_No'', JStr ''000001''),
         (''IO_ID'', JStr ''I''),
         (''MT'', JStr ''103''),
         (''Recipient'', JStr ''TESTBANK1XXX''),
         (''Message_Priority'', JStr ''N''),
         (''A'', JObj
            [(''F20'', JObj [(''F20_TRN'', JStr ''TEST-001'')]),
             (''F23B'', JObj [(''F23B_BankOpCode'', JStr ''CRED'')]),
             (''F32A'', JObj
                [(''F32A_Date'', JStr ''2024-01-01''),
                 (''F32A_Curr'', JStr ''USD''),
                 (''F32A_Amount'', JStr ''10000.00'')]),
             (''F59'', JObj
                [(''F59_ACC_ID_Party'', JStr ''/123456''),
                 (''F59_Name_addr_Party'', JStr ''BEN NAME'')]),
             (''F71A'', JObj [(''F71A_ChargesCode'', JStr ''SHA'')])])])])"
  by code_simp

text \<open>
  Claim C7. A block 3 with nested groups is cut at the first closing brace: the pattern
  of the block stops at the brace that closes the first sub-tag, the content handed to
  the user-header decoder is \<open>{108:X\<close> without its closing brace, and no sub-tag is
  found in it. The message \<open>{3:{108:X}{121:Y}}\<close> decodes to an empty document, with
  neither the MUR nor the UETR.
\<close>

theorem nested_user_header_lost:
  "map_option (\<lambda>m. group m ''1'') (re_search (brace_pattern ''3'') ''{3:{108:X}{121:Y}}'')
     = Some (Some ''{108:X'')
   \<and> parse_user_header ''{108:X'' = []
   \<and> mt103_to_json ''{3:{108:X}{121:Y}}'' = Inr (JObj [(''MT103'', JObj [])])"
  by code_simp

end
